theory Spec2Isabelle
  imports Main "HOL-Library.Word"
begin

unbundle bit_operations_syntax

section \<open>Data model\<close>

text \<open>
  Go's \<^verbatim>\<open>byte\<close> is an 8-bit word and a \<^verbatim>\<open>[]byte\<close> (or a \<^verbatim>\<open>string\<close>, which in Go
  holds arbitrary bytes) is a list of them. A Go function returning \<^verbatim>\<open>(v, error)\<close> is
  modelled as it is written: a pair of the value and an optional error, \<open>None\<close> being
  \<^verbatim>\<open>nil\<close>. A \<^verbatim>\<open>nil\<close> slice and the empty string are both the empty list.
\<close>

type_synonym byte = "8 word"
type_synonym bytes = "byte list"

text \<open>
  The error values of the two packages. \<open>ErrNoByteFound\<close> is the error
  \<^verbatim>\<open>errors.New("no byte found after a valid attempt")\<close> of \<^verbatim>\<open>decryptBlock\<close>;
  \<open>ErrOther\<close> stands for any other error value an oracle may hand back, and \<open>Panic\<close> for a
  run-time panic (an index or a slice bound out of range).
\<close>

datatype error = ErrInvalidCiphertext | ErrNoByteFound | ErrInvalidPad | ErrOther string | Panic

type_synonym 'a result = "'a \<times> error option"

definition CipherBlockLen :: nat where
  "CipherBlockLen = 16"

definition MaxGoroutines :: nat where
  "MaxGoroutines = 20"

text \<open>\<^verbatim>\<open>Poracle.Do\<close>: the answer of the oracle to one candidate ciphertext.\<close>

type_synonym poracle = "bytes \<Rightarrow> int \<times> error option"

section \<open>Package crypto\<close>

text \<open>
  \<^verbatim>\<open>BlockXOR\<close>: \<^verbatim>\<open>res[i] = block[i] ^ key[i%len(key)]\<close>. Every call in the functions below
  passes a key of 16 bytes; with an empty key and a non-empty block the source panics, which
  the callers below turn into \<open>Panic\<close>.
\<close>

definition BlockXOR :: "bytes \<Rightarrow> bytes \<Rightarrow> bytes" where
  "BlockXOR block key = map (\<lambda>i. block ! i XOR key ! (i mod length key)) [0..<length block]"

text \<open>\<^verbatim>\<open>PCKCS5Pad\<close>: \<^verbatim>\<open>r := 16 - len(m)%16\<close>, then \<open>r\<close> bytes of value \<open>r\<close> are appended.\<close>

definition PCKCS5Pad :: "bytes \<Rightarrow> bytes" where
  "PCKCS5Pad m = (let r = 16 - length m mod 16 in m @ replicate r (of_nat r))"

text \<open>
  \<^verbatim>\<open>DecryptRemovePCKCS5Pad\<close>. The loop runs \<open>p\<close> times, each time comparing the last byte
  with \<open>p\<close> and dropping it; reading the last byte of an empty slice panics.
\<close>

fun removePad_loop :: "nat \<Rightarrow> byte \<Rightarrow> bytes \<Rightarrow> bytes result" where
  "removePad_loop 0 p m = (m, None)"
| "removePad_loop (Suc j) p m =
     (if m = [] then ([], Some Panic)
      else if last m \<noteq> p then ([], Some ErrInvalidPad)
      else removePad_loop j p (butlast m))"

definition DecryptRemovePCKCS5Pad :: "bytes \<Rightarrow> bytes result" where
  "DecryptRemovePCKCS5Pad m =
     (if m = [] then ([], Some Panic)
      else let p = unat (last m) in
        if p > 16 \<or> p < 1 then ([], Some ErrInvalidPad)
        else removePad_loop p (last m) m)"

text \<open>
  The block cipher is \<^verbatim>\<open>crypto/aes\<close> of the Go standard library, which is not part of the
  repository: \<^verbatim>\<open>c.Encrypt\<close> and \<^verbatim>\<open>bc.Decrypt\<close> under the key are parameters \<open>enc\<close> and
  \<open>dec\<close> of the model. Hex encoding and decoding are inverse to each other and are left
  out: the model works on the raw bytes, and a key is the cipher it selects.

  \<^verbatim>\<open>CBCEncrypt\<close>: the ciphertext is \<open>iv || c[0] .. c[n-1]\<close> with
  \<open>c[i] = enc (m[i] XOR c[i-1])\<close> and \<open>c[-1] = iv\<close>. The padded message is never empty, so
  an empty \<open>iv\<close> makes the first \<^verbatim>\<open>BlockXOR\<close> panic.
\<close>

fun CBCEncrypt_loop :: "(bytes \<Rightarrow> bytes) \<Rightarrow> bytes \<Rightarrow> nat list \<Rightarrow> bytes \<Rightarrow> bytes \<Rightarrow> bytes" where
  "CBCEncrypt_loop enc m [] prev ct = ct"
| "CBCEncrypt_loop enc m (i # is) prev ct =
     (let b = take 16 (drop (i * 16) m);
          x = enc (BlockXOR b prev)
      in CBCEncrypt_loop enc m is x (ct @ x))"

definition CBCEncrypt :: "(bytes \<Rightarrow> bytes) \<Rightarrow> bytes \<Rightarrow> bytes \<Rightarrow> bytes result" where
  "CBCEncrypt enc iv msg =
     (if iv = [] then ([], Some Panic)
      else let m = PCKCS5Pad msg
           in (CBCEncrypt_loop enc m [0..<length m div 16] iv iv, None))"

text \<open>
  \<^verbatim>\<open>CBCDecrypt\<close>: \<open>iv = d[0:16]\<close> (a panic when \<open>d\<close> is shorter), \<open>c = d[16:]\<close>, each full
  block \<open>ci\<close> of \<open>c\<close> contributes \<open>dec ci XOR prev\<close>, and the padding is removed from the
  result.
\<close>

fun CBCDecrypt_loop :: "(bytes \<Rightarrow> bytes) \<Rightarrow> bytes \<Rightarrow> nat list \<Rightarrow> bytes \<Rightarrow> bytes \<Rightarrow> bytes" where
  "CBCDecrypt_loop dec c [] prev m = m"
| "CBCDecrypt_loop dec c (i # is) prev m =
     (let ci = take 16 (drop (i * 16) c);
          aux = dec ci
      in CBCDecrypt_loop dec c is ci (m @ BlockXOR aux prev))"

definition CBCDecrypt :: "(bytes \<Rightarrow> bytes) \<Rightarrow> bytes \<Rightarrow> bytes result" where
  "CBCDecrypt dec d =
     (if length d < 16 then ([], Some Panic)
      else let iv = take 16 d;
               c = drop 16 d;
               ct = CBCDecrypt_loop dec c [0..<length c div 16] iv []
           in DecryptRemovePCKCS5Pad ct)"

section \<open>Package goracler: the pad-candidate builder\<close>

text \<open>
  \<^verbatim>\<open>buildPad\<close>. \<open>pad\<close> and \<open>fill\<close> are bytes: \<^verbatim>\<open>byte(CipherBlockLen) - byte(p)\<close> wraps
  modulo 256. The loop runs \<open>i\<close> from 15 down to 0; \<open>buildPad_loop (Suc i)\<close> is the iteration
  at index \<open>i\<close>. The function is called with \<open>0 \<le> p < 16\<close> and slices of 16 bytes only
  (\<^verbatim>\<open>decryptBlock\<close> has panicked before when \<open>c\<close> is shorter).
\<close>

fun buildPad_loop :: "nat \<Rightarrow> nat \<Rightarrow> byte \<Rightarrow> byte \<Rightarrow> bytes \<Rightarrow> bytes \<Rightarrow> byte \<Rightarrow> bytes \<Rightarrow> bytes" where
  "buildPad_loop 0 p g pad c m fill rg = rg"
| "buildPad_loop (Suc i) p g pad c m fill rg =
     (if fill < 1 then buildPad_loop i p g pad c m fill (rg[i := c ! i])
      else buildPad_loop i p g pad c m (fill - 1)
             (rg[i := (if p = i then g else pad XOR m ! i XOR c ! i)]))"

definition buildPad :: "nat \<Rightarrow> byte \<Rightarrow> bytes \<Rightarrow> bytes \<Rightarrow> bytes" where
  "buildPad p g c m =
     (let pad = (of_nat CipherBlockLen :: byte) - of_nat p
      in buildPad_loop CipherBlockLen p g pad c m pad (replicate CipherBlockLen 0))"

section \<open>The parallel guess pool\<close>

text \<open>
  The channel \<^verbatim>\<open>values\<close>: the guesses 0 to 255 in this order, without \<open>prev[p]\<close> when
  \<open>p\<close> is the right-most position.
\<close>

definition values_chan :: "bytes \<Rightarrow> nat \<Rightarrow> bytes" where
  "values_chan prev p =
     filter (\<lambda>g. \<not> (g = prev ! p \<and> p = CipherBlockLen - 1)) (map of_nat [0..<256])"

record checkValueRes =
  Err :: "error option"
  Res :: byte

text \<open>
  One iteration of the worker loop of \<^verbatim>\<open>checkValuePad\<close> for a guess \<open>g\<close> read from the
  channel: the query sent to the oracle, and what the worker sends to \<^verbatim>\<open>done\<close>
  (\<open>None\<close>: nothing, the worker reads the next guess).
\<close>

definition oracle_query :: "nat \<Rightarrow> bytes \<Rightarrow> bytes \<Rightarrow> bytes \<Rightarrow> byte \<Rightarrow> bytes" where
  "oracle_query p prev current mi g = buildPad p g prev mi @ current"

definition checkValuePad :: "poracle \<Rightarrow> nat \<Rightarrow> bytes \<Rightarrow> bytes \<Rightarrow> bytes \<Rightarrow> byte \<Rightarrow> checkValueRes option" where
  "checkValuePad q p prev current mi g =
     (case q (oracle_query p prev current mi g) of
        (res, Some err) \<Rightarrow> Some \<lparr>Err = Some err, Res = 0\<rparr>
      | (res, None) \<Rightarrow> if res > 0 then Some \<lparr>Err = None, Res = g\<rparr> else None)"

text \<open>
  The goroutines run concurrently, so what \<^verbatim>\<open>done\<close> holds after \<^verbatim>\<open>wg.Wait()\<close> depends on
  the scheduler. A schedule fixes the two things the scheduler decides at one position:
  \<^item> \<open>extra\<close>: how many more guesses are read from the channel after the first guess that
    ends a worker (a valid pad or an error) has been read. Workers that are already past
    the \<^verbatim>\<open>select\<close> do not see the cancellation, and a \<^verbatim>\<open>select\<close> with both cases ready
    picks one at random, so any number is possible;
  \<^item> \<open>rank\<close>: the order in which the workers that have a result send it to \<^verbatim>\<open>done\<close>
    (smaller rank first; guesses of equal rank in channel order).
  The channel is first-in first-out, so the guesses read are a prefix of the channel.
  A worker returns after it has sent a result, so at most \<open>MaxGoroutines\<close> results are sent
  and nothing is read once every worker has read a guess that ends it.
\<close>

record sched =
  extra :: nat
  rank :: "byte \<Rightarrow> nat"

fun workers_read :: "nat \<Rightarrow> nat \<Rightarrow> bool \<Rightarrow> (byte \<Rightarrow> bool) \<Rightarrow> bytes \<Rightarrow> bytes" where
  "workers_read w k cancelled stop [] = []"
| "workers_read w k cancelled stop (g # gs) =
     (if w = 0 \<or> (cancelled \<and> k = 0) then []
      else g # workers_read (if stop g then w - 1 else w) (if cancelled then k - 1 else k)
                 (cancelled \<or> stop g) stop gs)"

definition guesses_read :: "sched \<Rightarrow> poracle \<Rightarrow> nat \<Rightarrow> bytes \<Rightarrow> bytes \<Rightarrow> bytes \<Rightarrow> bytes" where
  "guesses_read s q p prev current mi =
     workers_read MaxGoroutines (extra s) False
       (\<lambda>g. checkValuePad q p prev current mi g \<noteq> None) (values_chan prev p)"

definition done_chan :: "sched \<Rightarrow> poracle \<Rightarrow> nat \<Rightarrow> bytes \<Rightarrow> bytes \<Rightarrow> bytes \<Rightarrow> checkValueRes list" where
  "done_chan s q p prev current mi =
     List.map_filter (checkValuePad q p prev current mi)
       (sort_key (rank s) (guesses_read s q p prev current mi))"

text \<open>
  The loop \<^verbatim>\<open>for res := range done\<close> of \<^verbatim>\<open>decryptBlock\<close>: the first error found is
  returned, otherwise \<open>val\<close> is the last result and \<open>found\<close> says whether there was one.
\<close>

fun drain_done :: "checkValueRes list \<Rightarrow> byte \<Rightarrow> bool \<Rightarrow> error + (byte \<times> bool)" where
  "drain_done [] val found = Inr (val, found)"
| "drain_done (res # rs) val found =
     (case Err res of
        Some e \<Rightarrow> Inl e
      | None \<Rightarrow> drain_done rs (Res res) True)"

section \<open>The byte-recovery engine\<close>

text \<open>
  What the oracle is asked is part of the behaviour of the engine: a run returns, next to
  the result, the list of the queries made, each with the position and the guess it was
  built for.
\<close>

record query =
  pos :: nat
  guess :: byte
  sent :: bytes

definition queries_at :: "sched \<Rightarrow> poracle \<Rightarrow> nat \<Rightarrow> bytes \<Rightarrow> bytes \<Rightarrow> bytes \<Rightarrow> query list" where
  "queries_at s q p prev current mi =
     map (\<lambda>g. \<lparr>pos = p, guess = g, sent = oracle_query p prev current mi g\<rparr>)
       (guesses_read s q p prev current mi)"

text \<open>
  \<^verbatim>\<open>decryptBlock\<close>: \<open>decryptBlock_loop sch prev current q (Suc p) mi tr\<close> is the iteration of
  the outer loop at position \<open>p\<close>, with the schedule \<open>sch p\<close>. The logger only prints and is
  left out. The first access \<open>prev[15]\<close> panics when \<open>prev\<close> has fewer than 16 bytes.
\<close>

fun decryptBlock_loop ::
  "(nat \<Rightarrow> sched) \<Rightarrow> bytes \<Rightarrow> bytes \<Rightarrow> poracle \<Rightarrow> nat \<Rightarrow> bytes \<Rightarrow> query list \<Rightarrow> bytes result \<times> query list" where
  "decryptBlock_loop sch prev current q 0 mi tr = ((mi, None), tr)"
| "decryptBlock_loop sch prev current q (Suc p) mi tr =
     (let tr' = tr @ queries_at (sch p) q p prev current mi
      in case drain_done (done_chan (sch p) q p prev current mi) 0 False of
           Inl e \<Rightarrow> (([], Some e), tr')
         | Inr (val, found) \<Rightarrow>
             if \<not> found then (([], Some ErrNoByteFound), tr')
             else decryptBlock_loop sch prev current q p
                    (mi[p := val XOR prev ! p XOR ((of_nat CipherBlockLen :: byte) - of_nat p)]) tr')"

definition decryptBlock_run ::
  "(nat \<Rightarrow> sched) \<Rightarrow> bytes \<Rightarrow> bytes \<Rightarrow> poracle \<Rightarrow> bytes result \<times> query list" where
  "decryptBlock_run sch prev current q =
     (if length prev < CipherBlockLen then (([], Some Panic), [])
      else decryptBlock_loop sch prev current q CipherBlockLen (replicate CipherBlockLen 0) [])"

definition decryptBlock :: "(nat \<Rightarrow> sched) \<Rightarrow> bytes \<Rightarrow> bytes \<Rightarrow> poracle \<Rightarrow> bytes result" where
  "decryptBlock sch prev current q = fst (decryptBlock_run sch prev current q)"

section \<open>The drivers\<close>

text \<open>
  \<^verbatim>\<open>Decrypt\<close>. The loop \<^verbatim>\<open>for i := 1; i < n; i++\<close> runs over the list \<open>[1..<n]\<close>; the call for
  block \<open>i\<close> runs under the schedule \<open>sch i\<close>.
\<close>

fun Decrypt_loop ::
  "(nat \<Rightarrow> nat \<Rightarrow> sched) \<Rightarrow> bytes \<Rightarrow> poracle \<Rightarrow> nat list \<Rightarrow> bytes \<Rightarrow> query list \<Rightarrow> bytes result \<times> query list" where
  "Decrypt_loop sch c q [] m tr = ((m, None), tr)"
| "Decrypt_loop sch c q (i # is) m tr =
     (let c0 = take CipherBlockLen (drop ((i - 1) * CipherBlockLen) c);
          c1 = take CipherBlockLen (drop (CipherBlockLen * i) c)
      in case decryptBlock_run (sch i) c0 c1 q of
           ((mi, Some err), tr') \<Rightarrow> (([], Some err), tr @ tr')
         | ((mi, None), tr') \<Rightarrow> Decrypt_loop sch c q is (m @ mi) (tr @ tr'))"

definition Decrypt_run ::
  "(nat \<Rightarrow> nat \<Rightarrow> sched) \<Rightarrow> bytes \<Rightarrow> poracle \<Rightarrow> bytes result \<times> query list" where
  "Decrypt_run sch c q =
     (let n = length c div CipherBlockLen in
      if n < 2 then (([], Some ErrInvalidCiphertext), [])
      else if length c mod CipherBlockLen \<noteq> 0 then (([], Some ErrInvalidCiphertext), [])
      else Decrypt_loop sch c q [1..<n] [] [])"

definition Decrypt :: "(nat \<Rightarrow> nat \<Rightarrow> sched) \<Rightarrow> bytes \<Rightarrow> poracle \<Rightarrow> bytes result" where
  "Decrypt sch c q = fst (Decrypt_run sch c q)"

text \<open>
  \<^verbatim>\<open>Encrypt\<close>. The loop \<^verbatim>\<open>for i := n - 1; i >= 0; i--\<close> runs over \<open>rev [0..<n]\<close>; \<open>c0\<close> stays
  the zero block, \<open>c1\<close> is the block recovered last and \<open>c\<close> the ciphertext built so far.
\<close>

fun Encrypt_loop ::
  "(nat \<Rightarrow> nat \<Rightarrow> sched) \<Rightarrow> bytes \<Rightarrow> poracle \<Rightarrow> nat list \<Rightarrow> bytes \<Rightarrow> bytes \<Rightarrow> bytes \<Rightarrow> bytes result" where
  "Encrypt_loop sch ctext q [] c0 c1 c = (c, None)"
| "Encrypt_loop sch ctext q (i # is) c0 c1 c =
     (case decryptBlock (sch i) c0 c1 q of
        (di, Some err) \<Rightarrow> ([], Some err)
      | (di, None) \<Rightarrow>
          (let ti = take CipherBlockLen (drop (CipherBlockLen * i) ctext);
               c1' = BlockXOR ti di
           in Encrypt_loop sch ctext q is c0 c1' (c1' @ c)))"

definition Encrypt :: "(nat \<Rightarrow> nat \<Rightarrow> sched) \<Rightarrow> bytes \<Rightarrow> poracle \<Rightarrow> bytes result" where
  "Encrypt sch txt q =
     (let ctext = PCKCS5Pad txt;
          n = length ctext div CipherBlockLen;
          c1 = replicate CipherBlockLen 0;
          c0 = replicate CipherBlockLen 0
      in Encrypt_loop sch ctext q (rev [0..<n]) c0 c1 c1)"

section \<open>The oracle of the tests\<close>

text \<open>
  \<^verbatim>\<open>testOracle.Do\<close> wraps the reference decryptor: 0 for an invalid pad, 1 for a valid
  one, and any other error of \<^verbatim>\<open>CBCDecrypt\<close> is handed on.
\<close>

definition testOracle_Do :: "(bytes \<Rightarrow> bytes) \<Rightarrow> poracle" where
  "testOracle_Do dec c =
     (case CBCDecrypt dec c of
        (m, Some err) \<Rightarrow> if err \<noteq> ErrInvalidPad then (0, Some err) else (0, None)
      | (m, None) \<Rightarrow> (1, None))"

section \<open>Valid paddings and unambiguous blocks\<close>

text \<open>
  What \<^verbatim>\<open>DecryptRemovePCKCS5Pad\<close> accepts, written out: the last byte \<open>t\<close> is between 1 and
  16 and the last \<open>t\<close> bytes all equal \<open>t\<close>.
\<close>

definition pad_valid :: "bytes \<Rightarrow> bool" where
  "pad_valid m = (1 \<le> unat (last m) \<and> unat (last m) \<le> 16 \<and>
                  (\<forall>i<unat (last m). m ! (length m - Suc i) = last m))"

text \<open>
  At the right-most position the engine replaces the last byte of the plaintext block
  \<open>b\<close> by every value but the one it has. \<open>longer_pad b k\<close>: the \<open>k - 1\<close> bytes before the
  last byte all equal \<open>k\<close>, so that the last byte \<open>k\<close> completes a padding of length \<open>k\<close>.
  A block is right-most unambiguous when its last byte is not 1 (the guess that yields the
  padding of length 1 is then in the guess space) and no other last byte than its own
  completes a longer padding.
\<close>

definition longer_pad :: "bytes \<Rightarrow> nat \<Rightarrow> bool" where
  "longer_pad b k = (\<forall>i\<in>set [16 - k..<15]. b ! i = of_nat k)"

definition rightmost_unambiguous :: "bytes \<Rightarrow> bool" where
  "rightmost_unambiguous b =
     (b ! 15 \<noteq> 1 \<and> (\<forall>k\<in>set [2..<17]. b ! 15 = of_nat k \<or> \<not> longer_pad b k))"

text \<open>
  A block is right-most excluded when its last byte is 1 and no last byte completes a
  longer padding: the only guess that yields a valid padding is then the excluded one.
\<close>

definition rightmost_excluded :: "bytes \<Rightarrow> bool" where
  "rightmost_excluded b = (b ! 15 = 1 \<and> (\<forall>k\<in>set [2..<17]. \<not> longer_pad b k))"

text \<open>The 16-byte blocks of a byte sequence, and the sequences all of whose blocks are
  right-most unambiguous.\<close>

definition blocks16 :: "bytes \<Rightarrow> bytes list" where
  "blocks16 m = map (\<lambda>i. take 16 (drop (i * 16) m)) [0..<length m div 16]"

definition blocks_unambiguous :: "bytes \<Rightarrow> bool" where
  "blocks_unambiguous m = (\<forall>b\<in>set (blocks16 m). rightmost_unambiguous b)"

text \<open>
  What is assumed of the block cipher: on 16-byte blocks, encryption and decryption return
  16 bytes and decryption undoes encryption.
\<close>

definition block_cipher :: "(bytes \<Rightarrow> bytes) \<Rightarrow> (bytes \<Rightarrow> bytes) \<Rightarrow> bool" where
  "block_cipher enc dec =
     (\<forall>x. length x = 16 \<longrightarrow> length (enc x) = 16 \<and> length (dec x) = 16 \<and> dec (enc x) = x)"

text \<open>CBC mode on lists of blocks: the chain of ciphertext blocks that \<^verbatim>\<open>CBCEncrypt\<close> writes
  after \<open>prev\<close>, and the plaintext blocks that \<^verbatim>\<open>CBCDecrypt\<close> reads off a list of blocks
  whose head is the IV.\<close>

fun cbc_chain :: "(bytes \<Rightarrow> bytes) \<Rightarrow> bytes list \<Rightarrow> bytes \<Rightarrow> bytes list" where
  "cbc_chain enc [] prev = []"
| "cbc_chain enc (b # bs) prev = (let x = enc (BlockXOR b prev) in x # cbc_chain enc bs x)"

fun cbc_plain :: "(bytes \<Rightarrow> bytes) \<Rightarrow> bytes list \<Rightarrow> bytes list" where
  "cbc_plain dec (b0 # b1 # bs) = BlockXOR (dec b1) b0 # cbc_plain dec (b1 # bs)"
| "cbc_plain dec bs = []"

text \<open>
  The blocks that \<^verbatim>\<open>Encrypt\<close> hands to the engine as \<open>current\<close> are the zero block and then
  each block it has produced; \<open>forge_unambiguous\<close> says that the intermediate block
  \<open>dec current\<close> of each of them is right-most unambiguous.
\<close>

fun forge_unambiguous :: "(bytes \<Rightarrow> bytes) \<Rightarrow> bytes \<Rightarrow> nat list \<Rightarrow> bytes \<Rightarrow> bool" where
  "forge_unambiguous dec ctext [] c1 = True"
| "forge_unambiguous dec ctext (i # is) c1 =
     (rightmost_unambiguous (dec c1) \<and>
      forge_unambiguous dec ctext is
        (BlockXOR (take CipherBlockLen (drop (CipherBlockLen * i) ctext)) (dec c1)))"

text \<open>
  A run of the engine is free of races when, at every position it reaches, at most one
  guess of the guess space ends a worker (the oracle reports a valid padding or an error).
  \<open>race_free q prev current (Suc p) mi\<close> follows the run from position \<open>p\<close> down.
\<close>

fun race_free :: "poracle \<Rightarrow> bytes \<Rightarrow> bytes \<Rightarrow> nat \<Rightarrow> bytes \<Rightarrow> bool" where
  "race_free q prev current 0 mi = True"
| "race_free q prev current (Suc p) mi =
     (case List.map_filter (checkValuePad q p prev current mi) (values_chan prev p) of
        [] \<Rightarrow> True
      | [res] \<Rightarrow>
          (case Err res of
             Some e \<Rightarrow> True
           | None \<Rightarrow> race_free q prev current p
               (mi[p := Res res XOR prev ! p XOR ((of_nat CipherBlockLen :: byte) - of_nat p)]))
      | _ \<Rightarrow> False)"

definition race_free_blocks :: "poracle \<Rightarrow> bytes \<Rightarrow> bool" where
  "race_free_blocks q c =
     (\<forall>i\<in>set [1..<length c div CipherBlockLen].
        race_free q (take CipherBlockLen (drop ((i - 1) * CipherBlockLen) c))
          (take CipherBlockLen (drop (CipherBlockLen * i) c)) CipherBlockLen
          (replicate CipherBlockLen 0))"

section \<open>A toy cipher and test data\<close>

text \<open>
  Concrete instances need a concrete block cipher. \<open>xor_cipher key\<close> XORs a block with a
  16-byte key; it is its own inverse. \<open>test_key\<close> and \<open>test_iv\<close> are the key and the IV of
  the repository's tests, \<open>hello_world\<close> is the message \<^verbatim>\<open>"Hello world"\<close> of the tests
  and \<open>hello_world15\<close> the 15 bytes \<^verbatim>\<open>"Hello world!!!!"\<close>.
\<close>

definition xor_cipher :: "bytes \<Rightarrow> bytes \<Rightarrow> bytes" where
  "xor_cipher key x = BlockXOR x key"

definition test_key :: bytes where
  "test_key = [0xee, 0x58, 0x1a, 0x04, 0x3a, 0xc1, 0x91, 0x91,
               0xc7, 0xd5, 0x51, 0x71, 0x0b, 0xab, 0x13, 0xa9]"

text \<open>A key under which the toy cipher decrypts the zero block to a block ending in
  \<open>01\<close>.\<close>

definition weak_key :: bytes where
  "weak_key = take 15 test_key @ [0x01]"

definition test_iv :: bytes where
  "test_iv = [0x91, 0xdb, 0x44, 0x82, 0xc4, 0xff, 0xa9, 0x85,
              0x83, 0x38, 0xab, 0x0e, 0x98, 0xdd, 0xf9, 0x6c]"

definition hello_world :: bytes where
  "hello_world = [0x48, 0x65, 0x6c, 0x6c, 0x6f, 0x20, 0x77, 0x6f, 0x72, 0x6c, 0x64]"

definition hello_world15 :: bytes where
  "hello_world15 = hello_world @ [0x21, 0x21, 0x21, 0x21]"

text \<open>The message \<^verbatim>\<open>"Somewhere in la Mancha, in a place whose name"\<close> of the tests.\<close>

definition la_mancha :: bytes where
  "la_mancha = [0x53, 0x6f, 0x6d, 0x65, 0x77, 0x68, 0x65, 0x72, 0x65, 0x20, 0x69, 0x6e,
                  0x20, 0x6c, 0x61, 0x20, 0x4d, 0x61, 0x6e, 0x63, 0x68, 0x61, 0x2c, 0x20,
                  0x69, 0x6e, 0x20, 0x61, 0x20, 0x70, 0x6c, 0x61, 0x63, 0x65, 0x20, 0x77,
                  0x68, 0x6f, 0x73, 0x65, 0x20, 0x6e, 0x61, 0x6d, 0x65]"

text \<open>The ciphertext block that \<^verbatim>\<open>CBCEncrypt\<close> writes after the IV for these two messages.\<close>

definition hello_block :: bytes where
  "hello_block = drop 16 (fst (CBCEncrypt (xor_cipher test_key) test_iv hello_world))"

definition hello15_block :: bytes where
  "hello15_block = drop 16 (fst (CBCEncrypt (xor_cipher test_key) test_iv hello_world15))"

text \<open>
  A 16-byte message whose byte 14 is \<open>02\<close>, \<^verbatim>\<open>"Hello world!!!\\x02l"\<close>: in the block recovery of
  its first ciphertext block, two guesses yield a valid padding at the right-most position
  (\<open>01\<close>, and \<open>02 02\<close>). \<open>racy_block\<close> is that ciphertext block, \<open>racy_ciphertext\<close> the whole
  ciphertext (IV, block, padding block).
\<close>

definition racy_msg :: bytes where
  "racy_msg = hello_world @ [0x21, 0x21, 0x21, 0x02, 0x6c]"

definition racy_ciphertext :: bytes where
  "racy_ciphertext = fst (CBCEncrypt (xor_cipher test_key) test_iv racy_msg)"

definition racy_block :: bytes where
  "racy_block = take 16 (drop 16 racy_ciphertext)"

definition racy_block2 :: bytes where
  "racy_block2 = take 16 (drop 32 racy_ciphertext)"

text \<open>The schedule in which no guess is read after the first that ends a worker.\<close>

definition sched0 :: sched where
  "sched0 = \<lparr>extra = 0, rank = unat\<rparr>"

text \<open>
  A schedule in which one more guess is read after the first that ends a worker, and the
  results reach the sink in the order of the guesses.
\<close>

definition sched_race :: sched where
  "sched_race = \<lparr>extra = 1, rank = unat\<rparr>"

text \<open>The recovered-byte vector of that block recovery after the guess 2 has been taken at
  position 15, and after the guess 0 has then been taken at position 14.\<close>

definition racy_mi1 :: bytes where
  "racy_mi1 = (replicate 16 0)[15 := 2 XOR test_iv ! 15 XOR 1]"

definition racy_mi2 :: bytes where
  "racy_mi2 = racy_mi1[14 := 0 XOR test_iv ! 14 XOR 2]"

text \<open>The schedule of a block recovery that behaves like \<open>sched_race\<close> at the right-most
  position and like \<open>sched0\<close> at the others.\<close>

definition sched_race15 :: "nat \<Rightarrow> sched" where
  "sched_race15 p = (if p = 15 then sched_race else sched0)"

section \<open>The pad-candidate builder: its contract\<close>

lemma length_buildPad_loop [simp]:
  "length (buildPad_loop n p g pad c m fill rg) = length rg"
  by (induction n arbitrary: fill rg) auto

lemma buildPad_loop_nth:
  "n \<le> length rg \<Longrightarrow> i < length rg \<Longrightarrow>
   buildPad_loop n p g pad c m fill rg ! i =
     (if i < n then
        (if n - i \<le> unat fill then (if p = i then g else pad XOR m ! i XOR c ! i) else c ! i)
      else rg ! i)"
proof (induction n arbitrary: fill rg)
  case 0
  then show ?case by simp
next
  case (Suc n)
  show ?case
  proof (cases "fill = 0")
    case True
    with Suc show ?thesis
      by (auto simp: nth_list_update less_Suc_eq)
  next
    case False
    then have u: "unat (fill - 1) = unat fill - 1" "1 \<le> unat fill"
      by (simp_all add: unat_minus_one unat_gt_0 Suc_le_eq)
    have nl: "\<not> fill < 1" using False by (simp add: word_less_1)
    show ?thesis using Suc.prems u nl
      by (auto simp: Suc.IH nth_list_update less_Suc_eq)
  qed
qed

lemma unat_pad: "p < 16 \<Longrightarrow> unat ((16 :: byte) - of_nat p) = 16 - p"
  by (simp add: unat_sub_if' unat_of_nat word_le_nat_alt) 

lemma buildPad_nth:
  assumes "p < 16" "i < 16"
  shows "buildPad p g c m ! i =
     (if p < i then ((16 :: byte) - of_nat p) XOR m ! i XOR c ! i else if i = p then g else c ! i)"
  using assms by (auto simp: buildPad_def Let_def CipherBlockLen_def buildPad_loop_nth unat_pad)

lemma length_buildPad [simp]: "length (buildPad p g c m) = 16"
  by (simp add: buildPad_def Let_def CipherBlockLen_def)

section \<open>Padding and block XOR\<close>

lemma length_BlockXOR [simp]: "length (BlockXOR b k) = length b"
  by (simp add: BlockXOR_def)

lemma BlockXOR_nth:
  "i < length b \<Longrightarrow> BlockXOR b k ! i = b ! i XOR k ! (i mod length k)"
  by (simp add: BlockXOR_def)

lemma BlockXOR_nth16:
  "i < length b \<Longrightarrow> length k = length b \<Longrightarrow> BlockXOR b k ! i = b ! i XOR k ! i"
  by (simp add: BlockXOR_def)

lemma BlockXOR_cancel:
  "length k = length b \<Longrightarrow> BlockXOR (BlockXOR b k) k = b"
  by (rule nth_equalityI) (simp_all add: BlockXOR_nth16 xor.assoc)

lemma removePad_loop_eq:
  "j \<le> length m \<Longrightarrow>
   removePad_loop j p m =
     (if (\<forall>i<j. m ! (length m - Suc i) = p) then (take (length m - j) m, None)
      else ([], Some ErrInvalidPad))"
proof (induction j arbitrary: m)
  case 0
  then show ?case by simp
next
  case (Suc j)
  then have ne: "m \<noteq> []" by auto
  have l: "last m = m ! (length m - Suc 0)" using ne by (simp add: last_conv_nth)
  have jl: "j \<le> length (butlast m)" using Suc.prems by simp
  have nb: "(\<forall>i<j. butlast m ! (length (butlast m) - Suc i) = p) \<longleftrightarrow>
            (\<forall>i<j. m ! (length m - Suc (Suc i)) = p)"
    using Suc.prems by (simp add: nth_butlast)
  have all: "(\<forall>i<Suc j. m ! (length m - Suc i) = p) \<longleftrightarrow>
        (m ! (length m - Suc 0) = p \<and> (\<forall>i<j. m ! (length m - Suc (Suc i)) = p))"
    by (auto simp: less_Suc_eq_0_disj)
  have tk: "take (length (butlast m) - j) (butlast m) = take (length m - Suc j) m"
    by (simp add: butlast_conv_take min_def)
  have "removePad_loop (Suc j) p m =
      (if last m \<noteq> p then ([], Some ErrInvalidPad) else removePad_loop j p (butlast m))"
    using ne by simp
  also have "\<dots> = (if m ! (length m - Suc 0) = p \<and> (\<forall>i<j. m ! (length m - Suc (Suc i)) = p)
        then (take (length m - Suc j) m, None) else ([], Some ErrInvalidPad))"
    unfolding Suc.IH [OF jl] nb tk l by simp
  finally show ?case unfolding all .
qed

lemma DecryptRemovePCKCS5Pad_eq:
  assumes "16 \<le> length m"
  shows "DecryptRemovePCKCS5Pad m =
     (if 1 \<le> unat (last m) \<and> unat (last m) \<le> 16 \<and>
         (\<forall>i<unat (last m). m ! (length m - Suc i) = last m)
      then (take (length m - unat (last m)) m, None)
      else ([], Some ErrInvalidPad))"
proof -
  have ne: "m \<noteq> []" using assms by auto
  show ?thesis
  proof (cases "1 \<le> unat (last m) \<and> unat (last m) \<le> 16")
    case True
    then have "unat (last m) \<le> length m" using assms by simp
    then show ?thesis
      using True ne by (simp add: DecryptRemovePCKCS5Pad_def Let_def removePad_loop_eq not_less)
  next
    case False
    then show ?thesis
      using ne by (auto simp: DecryptRemovePCKCS5Pad_def Let_def not_less not_le)
  qed
qed

lemma pad_len_arith: "(r::nat) < 16 \<Longrightarrow> l = 16 * d + r \<Longrightarrow> l + (16 - r) = 16 * (d + 1)"
  by simp

lemma length_PCKCS5Pad: "length (PCKCS5Pad m) = 16 * (length m div 16 + 1)"
proof -
  have "length m + (16 - length m mod 16) = 16 * (length m div 16 + 1)"
    by (rule pad_len_arith) simp_all
  then show ?thesis by (simp add: PCKCS5Pad_def Let_def)
qed

lemma DecryptRemove_PCKCS5Pad: "DecryptRemovePCKCS5Pad (PCKCS5Pad m) = (m, None)"
proof -
  define r where "r = 16 - length m mod 16"
  have r: "1 \<le> r" "r \<le> 16" by (simp_all add: r_def Suc_le_eq)
  have P: "PCKCS5Pad m = m @ replicate r (of_nat r)"
    by (simp add: PCKCS5Pad_def r_def)
  have l: "last (PCKCS5Pad m) = (of_nat r :: byte)" using r by (simp add: P)
  have u: "unat (of_nat r :: byte) = r" using r by (simp add: unat_of_nat)
  have len: "length (PCKCS5Pad m) = length m + r" by (simp add: P)
  have nth: "PCKCS5Pad m ! (length (PCKCS5Pad m) - Suc i) = of_nat r" if "i < r" for i
  proof -
    have "length m \<le> length m + r - Suc i" using that by simp
    then show ?thesis using that unfolding len P by (simp add: nth_append)
  qed
  have tk: "take (length (PCKCS5Pad m) - r) (PCKCS5Pad m) = m" unfolding len by (simp add: P)
  have "16 \<le> length (PCKCS5Pad m)" by (simp add: length_PCKCS5Pad)
  then show ?thesis
    using r by (simp add: DecryptRemovePCKCS5Pad_eq l u nth tk)
qed

section \<open>The guess pool under any schedule\<close>

lemma set_workers_read: "set (workers_read w k c stop gs) \<subseteq> set gs"
  by (induction gs arbitrary: w k c) auto

lemma workers_read_prefix: "\<exists>n. workers_read w k c stop gs = take n gs"
proof (induction gs arbitrary: w k c)
  case Nil
  then show ?case by simp
next
  case (Cons g gs)
  show ?case
  proof (cases "w = 0 \<or> (c \<and> k = 0)")
    case True
    then have "workers_read w k c stop (g # gs) = take 0 (g # gs)" by auto
    then show ?thesis by blast
  next
    case False
    obtain n where "workers_read (if stop g then w - 1 else w) (if c then k - 1 else k)
        (c \<or> stop g) stop gs = take n gs"
      using Cons.IH by blast
    then have "workers_read w k c stop (g # gs) = take (Suc n) (g # gs)"
      using False by simp
    then show ?thesis by blast
  qed
qed

lemma filter_workers_read_empty:
  "filter stop gs = [] \<Longrightarrow> filter stop (workers_read w k c stop gs) = []"
  using set_workers_read [of w k c stop gs] by (auto simp: filter_empty_conv)

lemma workers_read_le1:
  "0 < w \<Longrightarrow> length (filter stop gs) \<le> 1 \<Longrightarrow>
   filter stop (workers_read w k False stop gs) = filter stop gs"
proof (induction gs)
  case Nil
  then show ?case by simp
next
  case (Cons g gs)
  show ?case
  proof (cases "stop g")
    case True
    then have "filter stop gs = []" using Cons.prems(2) by simp
    then show ?thesis
      using True Cons.prems(1) by (simp add: filter_workers_read_empty)
  next
    case False
    then show ?thesis using Cons by simp
  qed
qed

lemma workers_read_all:
  "0 < w \<Longrightarrow> filter stop gs = [] \<Longrightarrow> workers_read w k False stop gs = gs"
  by (induction gs) (auto split: if_splits)

lemma workers_read_nonempty:
  "0 < w \<Longrightarrow> gs \<noteq> [] \<Longrightarrow> workers_read w k False stop gs \<noteq> []"
  by (cases gs) auto

lemma sort_key_le1: "length xs \<le> 1 \<Longrightarrow> sort_key f xs = xs"
  by (cases xs) auto

lemma done_chan_le1:
  assumes "length (filter (\<lambda>g. checkValuePad q p prev cur mi g \<noteq> None) (values_chan prev p)) \<le> 1"
  shows "done_chan s q p prev cur mi =
         List.map_filter (checkValuePad q p prev cur mi) (values_chan prev p)"
proof -
  let ?stop = "\<lambda>g. checkValuePad q p prev cur mi g \<noteq> None"
  have "filter ?stop (sort_key (rank s) (guesses_read s q p prev cur mi)) =
        sort_key (rank s) (filter ?stop (guesses_read s q p prev cur mi))"
    by (rule filter_sort)
  also have "filter ?stop (guesses_read s q p prev cur mi) = filter ?stop (values_chan prev p)"
    unfolding guesses_read_def using assms
    by (intro workers_read_le1) (simp_all add: MaxGoroutines_def)
  also have "sort_key (rank s) (filter ?stop (values_chan prev p)) = filter ?stop (values_chan prev p)"
    using assms by (rule sort_key_le1)
  finally show ?thesis
    by (simp add: done_chan_def List.map_filter_def)
qed

section \<open>The oracle of the tests as a padding check\<close>

lemma xor_eq_swap: "(a XOR g = c) = (g = a XOR (c :: byte))"
  by (metis xor.left_commute xor_self_eq xor.right_neutral xor.commute)

lemma distinct_all_bytes: "distinct (map of_nat [0..<256] :: byte list)"
proof -
  have "inj_on (of_nat :: nat \<Rightarrow> byte) {0..<256}"
    by (rule inj_on_inverseI [where g = unat]) (simp add: unat_of_nat)
  then show ?thesis by (simp add: distinct_map)
qed

lemma set_all_bytes: "set (map of_nat [0..<256] :: byte list) = UNIV"
proof -
  have "w \<in> of_nat ` {0..<256}" for w :: byte
  proof
    show "w = of_nat (unat w)" by simp
    have "unat w < 2 ^ LENGTH(8)" by (rule unsigned_less)
    then show "unat w \<in> {0..<256}" by simp
  qed
  then show ?thesis by auto
qed

lemma distinct_values_chan: "distinct (values_chan prev p)"
  by (simp add: values_chan_def distinct_all_bytes del: upt_Suc)

lemma set_values_chan:
  "set (values_chan prev p) = (if p = 15 then UNIV - {prev ! 15} else UNIV)"
  unfolding values_chan_def set_filter set_all_bytes
  by (auto simp: CipherBlockLen_def)

lemma filter_unique:
  "distinct xs \<Longrightarrow> x \<in> set xs \<Longrightarrow> (\<And>y. y \<in> set xs \<Longrightarrow> P y \<longleftrightarrow> y = x) \<Longrightarrow> filter P xs = [x]"
proof (induction xs)
  case Nil
  then show ?case by simp
next
  case (Cons a xs)
  show ?case
  proof (cases "a = x")
    case True
    then have "x \<notin> set xs" using Cons.prems(1) by simp
    then have "filter P xs = []" using Cons.prems(3) by (auto simp: filter_empty_conv)
    then show ?thesis using True Cons.prems(3) by simp
  next
    case False
    then show ?thesis using Cons by auto
  qed
qed

lemma CBCDecrypt_two_blocks:
  "length c' = 16 \<Longrightarrow> length cur = 16 \<Longrightarrow>
   CBCDecrypt dec (c' @ cur) = DecryptRemovePCKCS5Pad (BlockXOR (dec cur) c')"
  by (simp add: CBCDecrypt_def Let_def)

lemma DecryptRemove_pad_valid:
  "16 \<le> length m \<Longrightarrow>
   DecryptRemovePCKCS5Pad m =
     (if pad_valid m then (take (length m - unat (last m)) m, None) else ([], Some ErrInvalidPad))"
  by (simp add: DecryptRemovePCKCS5Pad_eq pad_valid_def)

lemma testOracle_Do_eq:
  "length c' = 16 \<Longrightarrow> length cur = 16 \<Longrightarrow> length (dec cur) = 16 \<Longrightarrow>
   testOracle_Do dec (c' @ cur) = (if pad_valid (BlockXOR (dec cur) c') then (1, None) else (0, None))"
  by (simp add: testOracle_Do_def CBCDecrypt_two_blocks DecryptRemove_pad_valid)

lemma checkValuePad_testOracle:
  "length cur = 16 \<Longrightarrow> length (dec cur) = 16 \<Longrightarrow>
   checkValuePad (testOracle_Do dec) p prev cur mi g =
     (if pad_valid (BlockXOR (dec cur) (buildPad p g prev mi))
      then Some \<lparr>Err = None, Res = g\<rparr> else None)"
  by (simp add: checkValuePad_def oracle_query_def testOracle_Do_eq)

section \<open>Which guesses yield a valid padding\<close>

lemma probe_nth:
  assumes "i < 16" "p < 16" "length I = 16"
  shows "BlockXOR I (buildPad p g prev mi) ! i =
         I ! i XOR (if p < i then (16 - of_nat p) XOR mi ! i XOR prev ! i
                    else if i = p then g else prev ! i)"
  using assms by (simp add: BlockXOR_nth16 buildPad_nth)

lemma last16: "length m = 16 \<Longrightarrow> last m = m ! 15"
  by (cases "m = []") (simp_all add: last_conv_nth)

lemma pad_valid16:
  "length m = 16 \<Longrightarrow>
   pad_valid m \<longleftrightarrow>
     (1 \<le> unat (m ! 15) \<and> unat (m ! 15) \<le> 16 \<and> (\<forall>i<unat (m ! 15). m ! (15 - i) = m ! 15))"
  by (simp add: pad_valid_def last16)

lemma pad_valid_inner:
  assumes p: "p < 15" and I: "length I = 16"
    and inv: "\<And>i. p < i \<Longrightarrow> i < 16 \<Longrightarrow> mi ! i = I ! i XOR prev ! i"
  shows "pad_valid (BlockXOR I (buildPad p g prev mi)) \<longleftrightarrow> g = I ! p XOR (16 - of_nat p)"
proof -
  let ?T = "BlockXOR I (buildPad p g prev mi)"
  let ?pad = "(16 :: byte) - of_nat p"
  have len: "length ?T = 16" using I by simp
  have right: "?T ! i = ?pad" if "p < i" "i < 16" for i
  proof -
    have "?T ! i = I ! i XOR (?pad XOR mi ! i XOR prev ! i)"
      using that p by (simp add: probe_nth [OF _ _ I])
    also have "\<dots> = I ! i XOR (?pad XOR (I ! i XOR prev ! i) XOR prev ! i)"
      by (simp add: inv [OF that])
    also have "\<dots> = ?pad"
      by (simp add: xor.assoc xor.left_commute xor.commute)
    finally show ?thesis .
  qed
  have at: "?T ! p = I ! p XOR g" using p by (simp add: probe_nth [OF _ _ I])
  have l: "?T ! 15 = ?pad" using right [of 15] p by simp
  have u: "unat ?pad = 16 - p" using p by (simp add: unat_pad)
  have "(\<forall>i<16 - p. ?T ! (15 - i) = ?pad) \<longleftrightarrow> ?T ! p = ?pad"
  proof
    assume a: "\<forall>i<16 - p. ?T ! (15 - i) = ?pad"
    have "15 - p < 16 - p" using p by simp
    with a have "?T ! (15 - (15 - p)) = ?pad" by blast
    moreover have "15 - (15 - p) = p" using p by simp
    ultimately show "?T ! p = ?pad" by simp
  next
    assume a: "?T ! p = ?pad"
    show "\<forall>i<16 - p. ?T ! (15 - i) = ?pad"
    proof (intro allI impI)
      fix i assume "i < 16 - p"
      then have "15 - i = p \<or> (p < 15 - i \<and> 15 - i < 16)" by auto
      then show "?T ! (15 - i) = ?pad" using a right by auto
    qed
  qed
  then have "pad_valid ?T \<longleftrightarrow> ?T ! p = ?pad"
    using p unfolding pad_valid16 [OF len] l u by auto
  then show ?thesis by (simp add: at xor_eq_swap)
qed

lemma unat_eq_1_iff: "unat (t :: byte) = 1 \<longleftrightarrow> t = 1"
  by (metis unat_1 word_unat_eq_iff)

lemma mem_upt_iff: "k \<in> set [a..<b] \<longleftrightarrow> a \<le> k \<and> k < b"
  by (simp only: set_upt atLeastLessThan_iff)

lemma longer_pad_iff: "longer_pad b k \<longleftrightarrow> (\<forall>i. 16 - k \<le> i \<and> i < 15 \<longrightarrow> b ! i = of_nat k)"
  unfolding longer_pad_def by (auto simp only: mem_upt_iff)

lemma rightmost_unambiguous_iff:
  "rightmost_unambiguous b \<longleftrightarrow>
     (b ! 15 \<noteq> 1 \<and> (\<forall>k. 2 \<le> k \<and> k < 17 \<longrightarrow> b ! 15 = of_nat k \<or> \<not> longer_pad b k))"
  unfolding rightmost_unambiguous_def by (auto simp only: mem_upt_iff)

lemma pad_valid_rightmost_iff:
  assumes I: "length I = 16" and prev: "length prev = 16"
  shows "pad_valid (BlockXOR I (buildPad 15 g prev mi)) \<longleftrightarrow>
         (I ! 15 XOR g = 1 \<or>
          (2 \<le> unat (I ! 15 XOR g) \<and> unat (I ! 15 XOR g) \<le> 16 \<and>
           longer_pad (BlockXOR I prev) (unat (I ! 15 XOR g))))"
proof -
  let ?T = "BlockXOR I (buildPad 15 g prev mi)"
  let ?P = "BlockXOR I prev"
  let ?t = "I ! 15 XOR g"
  define k where "k = unat ?t"
  have tk: "?t = of_nat k" by (simp add: k_def)
  have len: "length ?T = 16" using I by simp
  have left: "?T ! i = ?P ! i" if "i < 15" for i
  proof -
    have "i < 16" "(15::nat) < 16" using that by simp_all
    then have "buildPad 15 g prev mi ! i = prev ! i"
      using that by (simp add: buildPad_nth)
    then show ?thesis using \<open>i < 16\<close> I prev by (simp add: BlockXOR_nth16)
  qed
  have at: "?T ! 15 = ?t" by (simp add: probe_nth [OF _ _ I])
  have pv: "pad_valid ?T \<longleftrightarrow> (1 \<le> k \<and> k \<le> 16 \<and> (\<forall>i<k. ?T ! (15 - i) = ?t))"
    unfolding pad_valid16 [OF len] at k_def ..
  have run: "(\<forall>i<k. ?T ! (15 - i) = ?t) \<longleftrightarrow> longer_pad ?P k" if "1 \<le> k" "k \<le> 16"
  proof
    assume a: "\<forall>i<k. ?T ! (15 - i) = ?t"
    show "longer_pad ?P k"
      unfolding longer_pad_iff
    proof (intro allI impI)
      fix i assume i: "16 - k \<le> i \<and> i < 15"
      then have "15 - i < k" using that by auto
      with a have "?T ! (15 - (15 - i)) = ?t" by blast
      moreover have "15 - (15 - i) = i" using i by simp
      ultimately show "?P ! i = of_nat k" using left [of i] i tk by simp
    qed
  next
    assume l: "longer_pad ?P k"
    show "\<forall>i<k. ?T ! (15 - i) = ?t"
    proof (intro allI impI)
      fix i assume i: "i < k"
      show "?T ! (15 - i) = ?t"
      proof (cases "i = 0")
        case True
        then show ?thesis by (simp add: at)
      next
        case False
        then have "16 - k \<le> 15 - i \<and> 15 - i < 15" using i that by auto
        then have "?P ! (15 - i) = of_nat k" using l unfolding longer_pad_iff by blast
        moreover have "15 - i < 15" using False i that by auto
        ultimately show ?thesis using left [of "15 - i"] tk by simp
      qed
    qed
  qed
  have one: "unat ?t = 1 \<longleftrightarrow> ?t = 1"
    by (rule unat_eq_1_iff)
  have lp1: "longer_pad ?P 1"
    unfolding longer_pad_iff by auto
  show ?thesis
  proof (cases "1 \<le> k \<and> k \<le> 16")
    case True
    then have "pad_valid ?T \<longleftrightarrow> longer_pad ?P k" using pv run by simp
    also have "\<dots> \<longleftrightarrow> (k = 1 \<or> (2 \<le> k \<and> k \<le> 16 \<and> longer_pad ?P k))"
      using True lp1 by (cases "k = 1") auto
    finally show ?thesis unfolding k_def one .
  next
    case False
    then have "\<not> pad_valid ?T" using pv by blast
    moreover have "unat ?t \<noteq> 1" "\<not> (2 \<le> unat ?t \<and> unat ?t \<le> 16)"
      using False unfolding k_def by auto
    ultimately show ?thesis using one by blast
  qed
qed

lemma probe_last_differs:
  assumes I: "length I = 16" and prev: "length prev = 16" and g: "g \<noteq> prev ! 15"
  shows "I ! 15 XOR g \<noteq> BlockXOR I prev ! 15"
proof
  assume "I ! 15 XOR g = BlockXOR I prev ! 15"
  then have "I ! 15 XOR g = I ! 15 XOR prev ! 15" using I prev by (simp add: BlockXOR_nth16)
  then have "g = prev ! 15" by (metis xor_eq_swap)
  with g show False by simp
qed

lemma pad_valid_rightmost:
  assumes I: "length I = 16" and prev: "length prev = 16"
    and U: "rightmost_unambiguous (BlockXOR I prev)"
    and g: "g \<noteq> prev ! 15"
  shows "pad_valid (BlockXOR I (buildPad 15 g prev mi)) \<longleftrightarrow> g = I ! 15 XOR 1"
proof -
  let ?t = "I ! 15 XOR g"
  have tne: "?t \<noteq> BlockXOR I prev ! 15" by (rule probe_last_differs [OF I prev g])
  have "\<not> (2 \<le> unat ?t \<and> unat ?t \<le> 16 \<and> longer_pad (BlockXOR I prev) (unat ?t))"
  proof
    assume a: "2 \<le> unat ?t \<and> unat ?t \<le> 16 \<and> longer_pad (BlockXOR I prev) (unat ?t)"
    then have "2 \<le> unat ?t \<and> unat ?t < 17" by simp
    then have "BlockXOR I prev ! 15 = of_nat (unat ?t) \<or> \<not> longer_pad (BlockXOR I prev) (unat ?t)"
      using U unfolding rightmost_unambiguous_iff by blast
    then show False using a tne by simp
  qed
  then have "pad_valid (BlockXOR I (buildPad 15 g prev mi)) \<longleftrightarrow> ?t = 1"
    unfolding pad_valid_rightmost_iff [OF I prev] by blast
  then show ?thesis by (simp add: xor_eq_swap)
qed

lemma pad_valid_rightmost_excluded:
  assumes I: "length I = 16" and prev: "length prev = 16"
    and one: "BlockXOR I prev ! 15 = 1"
    and nolonger: "\<And>k. 2 \<le> k \<Longrightarrow> k \<le> 16 \<Longrightarrow> \<not> longer_pad (BlockXOR I prev) k"
    and g: "g \<noteq> prev ! 15"
  shows "\<not> pad_valid (BlockXOR I (buildPad 15 g prev mi))"
proof -
  have "I ! 15 XOR g \<noteq> 1" using probe_last_differs [OF I prev g] one by simp
  then show ?thesis
    unfolding pad_valid_rightmost_iff [OF I prev] using nolonger by blast
qed

section \<open>The engine against the true decryptor\<close>

lemma stoppers_true_oracle:
  assumes p: "p < 16" and cur: "length cur = 16" and I: "length (dec cur) = 16"
    and prev: "length prev = 16"
    and inv: "\<And>i. p < i \<Longrightarrow> i < 16 \<Longrightarrow> mi ! i = dec cur ! i XOR prev ! i"
    and U: "p = 15 \<Longrightarrow> rightmost_unambiguous (BlockXOR (dec cur) prev)"
  shows "filter (\<lambda>g. checkValuePad (testOracle_Do dec) p prev cur mi g \<noteq> None) (values_chan prev p) =
         [dec cur ! p XOR (16 - of_nat p)]"
    and "checkValuePad (testOracle_Do dec) p prev cur mi (dec cur ! p XOR (16 - of_nat p)) =
         Some \<lparr>Err = None, Res = dec cur ! p XOR (16 - of_nat p)\<rparr>"
proof -
  let ?q = "testOracle_Do dec"
  let ?g = "dec cur ! p XOR ((16 :: byte) - of_nat p)"
  let ?stop = "\<lambda>g. checkValuePad ?q p prev cur mi g \<noteq> None"
  have stop: "?stop g \<longleftrightarrow> pad_valid (BlockXOR (dec cur) (buildPad p g prev mi))" for g
    by (simp add: checkValuePad_testOracle [where dec = dec, OF cur I])
  have mem: "?g \<in> set (values_chan prev p)"
  proof (cases "p = 15")
    case True
    have "BlockXOR (dec cur) prev ! 15 \<noteq> 1"
      using U [OF True] unfolding rightmost_unambiguous_iff by blast
    then have "dec cur ! 15 XOR prev ! 15 \<noteq> 1"
      using I prev by (simp add: BlockXOR_nth16)
    then have "prev ! 15 \<noteq> dec cur ! 15 XOR 1" by (simp add: xor_eq_swap)
    then show ?thesis using True by (auto simp: set_values_chan)
  next
    case False
    then show ?thesis by (simp add: set_values_chan)
  qed
  have iff: "?stop g \<longleftrightarrow> g = ?g" if "g \<in> set (values_chan prev p)" for g
  proof (cases "p = 15")
    case True
    then have "g \<noteq> prev ! 15" using that by (simp add: set_values_chan)
    then show ?thesis
      unfolding stop using True pad_valid_rightmost [OF I prev U [OF True], where g = g and mi = mi] by simp
  next
    case False
    then have "p < 15" using p by simp
    then show ?thesis unfolding stop using pad_valid_inner [OF _ I inv, where g = g] by simp
  qed
  show "filter ?stop (values_chan prev p) = [?g]"
    by (rule filter_unique [OF distinct_values_chan mem iff])
  have "pad_valid (BlockXOR (dec cur) (buildPad p ?g prev mi))"
    using iff [OF mem] unfolding stop by simp
  then show "checkValuePad ?q p prev cur mi ?g = Some \<lparr>Err = None, Res = ?g\<rparr>"
    by (simp add: checkValuePad_testOracle [where dec = dec, OF cur I])
qed

lemma sink_true_oracle:
  assumes p: "p < 16" and cur: "length cur = 16" and I: "length (dec cur) = 16"
    and prev: "length prev = 16"
    and inv: "\<And>i. p < i \<Longrightarrow> i < 16 \<Longrightarrow> mi ! i = dec cur ! i XOR prev ! i"
    and U: "p = 15 \<Longrightarrow> rightmost_unambiguous (BlockXOR (dec cur) prev)"
  shows "List.map_filter (checkValuePad (testOracle_Do dec) p prev cur mi) (values_chan prev p) =
         [\<lparr>Err = None, Res = dec cur ! p XOR (16 - of_nat p)\<rparr>]"
proof -
  let ?cv = "checkValuePad (testOracle_Do dec) p prev cur mi"
  let ?g = "dec cur ! p XOR ((16 :: byte) - of_nat p)"
  have f: "filter (\<lambda>g. ?cv g \<noteq> None) (values_chan prev p) = [?g]"
    by (rule stoppers_true_oracle(1) [where dec = dec, OF p cur I prev inv U])
  have c: "?cv ?g = Some \<lparr>Err = None, Res = ?g\<rparr>"
    by (rule stoppers_true_oracle(2) [where dec = dec, OF p cur I prev inv U])
  have "List.map_filter ?cv (values_chan prev p) =
        map (the \<circ> ?cv) (filter (\<lambda>g. ?cv g \<noteq> None) (values_chan prev p))"
    by (rule List.map_filter_def)
  also have "\<dots> = map (the \<circ> ?cv) [?g]" by (simp only: f)
  also have "\<dots> = [\<lparr>Err = None, Res = ?g\<rparr>]" by (simp add: c)
  finally show ?thesis .
qed

lemma done_chan_true_oracle:
  assumes p: "p < 16" and cur: "length cur = 16" and I: "length (dec cur) = 16"
    and prev: "length prev = 16"
    and inv: "\<And>i. p < i \<Longrightarrow> i < 16 \<Longrightarrow> mi ! i = dec cur ! i XOR prev ! i"
    and U: "p = 15 \<Longrightarrow> rightmost_unambiguous (BlockXOR (dec cur) prev)"
  shows "done_chan s (testOracle_Do dec) p prev cur mi =
         [\<lparr>Err = None, Res = dec cur ! p XOR (16 - of_nat p)\<rparr>]"
proof -
  have "filter (\<lambda>g. checkValuePad (testOracle_Do dec) p prev cur mi g \<noteq> None)
          (values_chan prev p) = [dec cur ! p XOR (16 - of_nat p)]"
    by (rule stoppers_true_oracle(1) [where dec = dec, OF p cur I prev inv U])
  then have "length (filter (\<lambda>g. checkValuePad (testOracle_Do dec) p prev cur mi g \<noteq> None)
          (values_chan prev p)) \<le> 1"
    by (simp only: length_Cons list.size)
  then have "done_chan s (testOracle_Do dec) p prev cur mi =
      List.map_filter (checkValuePad (testOracle_Do dec) p prev cur mi) (values_chan prev p)"
    by (rule done_chan_le1)
  also have "\<dots> = [\<lparr>Err = None, Res = dec cur ! p XOR (16 - of_nat p)\<rparr>]"
    by (rule sink_true_oracle [where dec = dec, OF p cur I prev inv U])
  finally show ?thesis .
qed

lemma decryptBlock_loop_true_oracle:
  assumes cur: "length cur = 16" and I: "length (dec cur) = 16" and prev: "length prev = 16"
  shows "n \<le> 16 \<Longrightarrow> length mi = 16 \<Longrightarrow>
         (\<And>i. n \<le> i \<Longrightarrow> i < 16 \<Longrightarrow> mi ! i = dec cur ! i XOR prev ! i) \<Longrightarrow>
         (n = 16 \<Longrightarrow> rightmost_unambiguous (BlockXOR (dec cur) prev)) \<Longrightarrow>
         fst (decryptBlock_loop sch prev cur (testOracle_Do dec) n mi tr) =
           (BlockXOR (dec cur) prev, None)"
proof (induction n arbitrary: mi tr)
  case 0
  have "mi = BlockXOR (dec cur) prev"
    using 0 I prev by (intro nth_equalityI) (simp_all add: BlockXOR_nth16)
  then show ?case by simp
next
  case (Suc p)
  let ?pad = "(16 :: byte) - of_nat p"
  let ?g = "dec cur ! p XOR ?pad"
  let ?mi = "mi[p := ?g XOR prev ! p XOR ?pad]"
  have p: "p < 16" using Suc.prems(1) by simp
  have d: "done_chan (sch p) (testOracle_Do dec) p prev cur mi = [\<lparr>Err = None, Res = ?g\<rparr>]"
    using Suc.prems(3,4) by (intro done_chan_true_oracle [where dec = dec, OF p cur I prev]) simp_all
  have new: "?g XOR prev ! p XOR ?pad = dec cur ! p XOR prev ! p"
    by (simp add: xor.assoc xor.left_commute xor.commute)
  have inv: "?mi ! i = dec cur ! i XOR prev ! i" if "p \<le> i" "i < 16" for i
  proof (cases "i = p")
    case True
    then show ?thesis using p Suc.prems(2) by (simp add: new)
  next
    case False
    then show ?thesis using that Suc.prems(3) [of i] by simp
  qed
  have "fst (decryptBlock_loop sch prev cur (testOracle_Do dec) p ?mi
          (tr @ queries_at (sch p) (testOracle_Do dec) p prev cur mi)) =
        (BlockXOR (dec cur) prev, None)"
    using p Suc.prems(2) inv by (intro Suc.IH) simp_all
  then show ?case by (simp add: d CipherBlockLen_def Let_def)
qed

lemma decryptBlock_true_oracle:
  assumes "length cur = 16" "length (dec cur) = 16" "length prev = 16"
    and "rightmost_unambiguous (BlockXOR (dec cur) prev)"
  shows "decryptBlock sch prev cur (testOracle_Do dec) = (BlockXOR (dec cur) prev, None)"
  unfolding decryptBlock_def decryptBlock_run_def
  using assms by (simp add: CipherBlockLen_def decryptBlock_loop_true_oracle)

section \<open>Runs of the engine and of the drivers\<close>

subsection \<open>Errors leave no partial result\<close>

lemma Decrypt_loop_error_empty:
  "snd (fst (Decrypt_loop sch c q is m tr)) \<noteq> None \<Longrightarrow> fst (fst (Decrypt_loop sch c q is m tr)) = []"
  by (induction "is" arbitrary: m tr) (auto simp: Let_def split: prod.splits option.splits)

lemma Encrypt_loop_error_empty:
  "snd (Encrypt_loop sch ctext q is c0 c1 c) \<noteq> None \<Longrightarrow> fst (Encrypt_loop sch ctext q is c0 c1 c) = []"
  by (induction "is" arbitrary: c1 c) (auto simp: Let_def split: prod.splits option.splits)

lemma Decrypt_error_empty: "snd (Decrypt sch c q) \<noteq> None \<Longrightarrow> fst (Decrypt sch c q) = []"
  unfolding Decrypt_def Decrypt_run_def
  by (auto simp: Let_def Decrypt_loop_error_empty split: if_splits)

lemma Encrypt_error_empty: "snd (Encrypt sch txt q) \<noteq> None \<Longrightarrow> fst (Encrypt sch txt q) = []"
  unfolding Encrypt_def by (simp add: Let_def Encrypt_loop_error_empty)

subsection \<open>The queries of a run\<close>

lemma set_guesses_read: "set (guesses_read s q p prev cur mi) \<subseteq> set (values_chan prev p)"
  unfolding guesses_read_def by (rule set_workers_read)

lemma values_chan_nonempty: "values_chan prev p \<noteq> []"
proof -
  have "card (set (values_chan prev p)) \<ge> 255"
    by (simp add: set_values_chan card_Diff_singleton card_word)
  then show ?thesis by auto
qed

lemma length_values_chan: "p \<noteq> 15 \<Longrightarrow> length (values_chan prev p) = 256"
  by (simp add: values_chan_def CipherBlockLen_def del: upt_Suc)

lemma queries_at_nonempty: "queries_at s q p prev cur mi \<noteq> []"
  unfolding queries_at_def guesses_read_def
  by (simp add: workers_read_nonempty values_chan_nonempty MaxGoroutines_def)

lemma decryptBlock_loop_trace_prefix:
  "\<exists>tr'. snd (decryptBlock_loop sch prev cur q n mi tr) = tr @ tr' \<and> (n > 0 \<longrightarrow> tr' \<noteq> [])"
proof (induction n arbitrary: mi tr)
  case 0
  then show ?case by simp
next
  case (Suc p)
  let ?tr = "tr @ queries_at (sch p) q p prev cur mi"
  show ?case
  proof (cases "drain_done (done_chan (sch p) q p prev cur mi) 0 False")
    case (Inl e)
    then show ?thesis by (simp add: Let_def queries_at_nonempty)
  next
    case (Inr vf)
    obtain val found where vf: "vf = (val, found)" by (cases vf)
    show ?thesis
    proof (cases found)
      case False
      then show ?thesis using Inr vf by (simp add: Let_def queries_at_nonempty)
    next
      case True
      obtain tr' where "snd (decryptBlock_loop sch prev cur q p
          (mi[p := val XOR prev ! p XOR ((of_nat CipherBlockLen :: byte) - of_nat p)]) ?tr) = ?tr @ tr'"
        using Suc.IH by blast
      then show ?thesis using Inr vf True by (simp add: Let_def queries_at_nonempty)
    qed
  qed
qed

lemma decryptBlock_run_trace_nonempty:
  "length prev = 16 \<Longrightarrow> snd (decryptBlock_run sch prev cur q) \<noteq> []"
  using decryptBlock_loop_trace_prefix [of sch prev cur q 16 "replicate 16 0" "[]"]
  by (auto simp: decryptBlock_run_def CipherBlockLen_def)

lemma Decrypt_loop_trace_prefix:
  "\<exists>tr'. snd (Decrypt_loop sch c q is m tr) = tr @ tr'"
proof (induction "is" arbitrary: m tr)
  case Nil
  then show ?case by simp
next
  case (Cons i "is")
  show ?case
  proof (cases "decryptBlock_run (sch i) (take CipherBlockLen (drop ((i - 1) * CipherBlockLen) c))
                  (take CipherBlockLen (drop (CipherBlockLen * i) c)) q")
    case (Pair r tr1)
    obtain mi e where r: "r = (mi, e)" by (cases r)
    show ?thesis
    proof (cases e)
      case None
      obtain tr' where "snd (Decrypt_loop sch c q is (m @ mi) (tr @ tr1)) = (tr @ tr1) @ tr'"
        using Cons.IH by blast
      then show ?thesis using Pair r None by (simp add: Let_def)
    next
      case (Some err)
      then show ?thesis using Pair r by (simp add: Let_def)
    qed
  qed
qed

subsection \<open>The result sink\<close>

lemma drain_done_Inl:
  "drain_done ds v f = Inl e \<Longrightarrow> \<exists>r\<in>set ds. Err r = Some e"
  by (induction ds arbitrary: v f) (auto split: option.splits)

lemma drain_done_has_error:
  "\<exists>r\<in>set ds. Err r \<noteq> None \<Longrightarrow> \<exists>e. drain_done ds v f = Inl e"
proof (induction ds arbitrary: v f)
  case Nil
  then show ?case by simp
next
  case (Cons d ds)
  show ?case
  proof (cases "Err d")
    case None
    then have "\<exists>r\<in>set ds. Err r \<noteq> None" using Cons.prems by auto
    then show ?thesis using None Cons.IH by simp
  next
    case (Some e)
    then show ?thesis by simp
  qed
qed

lemma drain_done_no_error:
  "\<forall>r\<in>set ds. Err r = None \<Longrightarrow>
   drain_done ds v f = (if ds = [] then Inr (v, f) else Inr (Res (last ds), True))"
  by (induction ds arbitrary: v f) (auto split: option.splits)

lemma set_map_filter_iff:
  "r \<in> set (List.map_filter f xs) \<longleftrightarrow> (\<exists>x\<in>set xs. f x = Some r)"
  by (induction xs) (auto simp: List.map_filter_simps split: option.splits)

lemma done_chan_mem:
  "r \<in> set (done_chan s q p prev cur mi) \<longleftrightarrow>
   (\<exists>g\<in>set (guesses_read s q p prev cur mi). checkValuePad q p prev cur mi g = Some r)"
  by (simp add: done_chan_def set_map_filter_iff)

lemma checkValuePad_Err:
  "checkValuePad q p prev cur mi g = Some r \<Longrightarrow>
   Err r = snd (q (oracle_query p prev cur mi g))"
  by (auto simp: checkValuePad_def split: prod.splits option.splits if_splits)

lemma checkValuePad_error:
  "snd (q (oracle_query p prev cur mi g)) = Some e \<Longrightarrow>
   checkValuePad q p prev cur mi g = Some \<lparr>Err = Some e, Res = 0\<rparr>"
  by (auto simp: checkValuePad_def split: prod.splits option.splits)

lemma checkValuePad_None_iff:
  "checkValuePad q p prev cur mi g = None \<longleftrightarrow>
   (\<exists>res. q (oracle_query p prev cur mi g) = (res, None) \<and> res \<le> 0)"
  by (auto simp: checkValuePad_def split: prod.splits option.splits)

lemma query_in_queries_at:
  "g \<in> set (guesses_read s q p prev cur mi) \<Longrightarrow>
   \<lparr>pos = p, guess = g, sent = oracle_query p prev cur mi g\<rparr> \<in> set (queries_at s q p prev cur mi)"
  by (auto simp: queries_at_def)

text \<open>The iteration of the engine at one position, in its three outcomes.\<close>

lemma decryptBlock_loop_Suc_error:
  "drain_done (done_chan (sch p) q p prev cur mi) 0 False = Inl e \<Longrightarrow>
   decryptBlock_loop sch prev cur q (Suc p) mi tr =
     (([], Some e), tr @ queries_at (sch p) q p prev cur mi)"
  by (simp add: Let_def)

lemma decryptBlock_loop_Suc_none:
  "done_chan (sch p) q p prev cur mi = [] \<Longrightarrow>
   decryptBlock_loop sch prev cur q (Suc p) mi tr =
     (([], Some ErrNoByteFound), tr @ queries_at (sch p) q p prev cur mi)"
  by (simp add: Let_def)

lemma decryptBlock_loop_Suc_found:
  assumes "done_chan (sch p) q p prev cur mi \<noteq> []"
    and "\<forall>r\<in>set (done_chan (sch p) q p prev cur mi). Err r = None"
  shows "decryptBlock_loop sch prev cur q (Suc p) mi tr =
     decryptBlock_loop sch prev cur q p
       (mi[p := Res (last (done_chan (sch p) q p prev cur mi)) XOR prev ! p XOR
                ((of_nat CipherBlockLen :: byte) - of_nat p)])
       (tr @ queries_at (sch p) q p prev cur mi)"
  using assms by (simp add: Let_def drain_done_no_error)

lemma done_chan_all_rejected:
  assumes "\<forall>g\<in>set (values_chan prev p). checkValuePad q p prev cur mi g = None"
  shows "done_chan s q p prev cur mi = []"
proof -
  have "\<not> (\<exists>r. r \<in> set (done_chan s q p prev cur mi))"
    using assms set_guesses_read [of s q p prev cur mi] by (auto simp: done_chan_mem)
  then show ?thesis by (cases "done_chan s q p prev cur mi") auto
qed

lemma decryptBlock_loop_error_source:
  "fst (decryptBlock_loop sch prev cur q n mi tr) = (v, Some e) \<Longrightarrow>
   e = ErrNoByteFound \<or>
   (\<exists>x\<in>set (snd (decryptBlock_loop sch prev cur q n mi tr)). snd (q (sent x)) = Some e)"
proof (induction n arbitrary: mi tr)
  case 0
  then show ?case by simp
next
  case (Suc p)
  let ?d = "done_chan (sch p) q p prev cur mi"
  show ?case
  proof (cases "drain_done ?d 0 False")
    case (Inl e')
    then have e: "e' = e" using Suc.prems by (simp add: Let_def)
    obtain r where r: "r \<in> set ?d" "Err r = Some e" using drain_done_Inl [OF Inl] e by blast
    then obtain g where g: "g \<in> set (guesses_read (sch p) q p prev cur mi)"
        "checkValuePad q p prev cur mi g = Some r"
      by (auto simp: done_chan_mem)
    have "snd (q (oracle_query p prev cur mi g)) = Some e"
      using checkValuePad_Err [OF g(2)] r(2) by simp
    then have "\<exists>x\<in>set (queries_at (sch p) q p prev cur mi). snd (q (sent x)) = Some e"
      using query_in_queries_at [OF g(1)] by force
    then show ?thesis using Inl by (auto simp: Let_def)
  next
    case (Inr vf)
    obtain val found where vf: "vf = (val, found)" by (cases vf)
    show ?thesis
    proof (cases found)
      case False
      then show ?thesis using Inr vf Suc.prems by (simp add: Let_def)
    next
      case True
      then show ?thesis using Inr vf Suc.prems Suc.IH by (simp add: Let_def)
    qed
  qed
qed

subsection \<open>The head of the channel\<close>

lemma upt_256_head: "[0..<256] = 0 # 1 # 2 # 3 # [4..<256]"
proof -
  have "[0..<256] = 0 # [Suc 0..<256]" by (rule upt_conv_Cons) simp
  also have "[Suc 0..<256] = Suc 0 # [Suc (Suc 0)..<256]" by (rule upt_conv_Cons) simp
  also have "[Suc (Suc 0)..<256] = Suc (Suc 0) # [Suc (Suc (Suc 0))..<256]"
    by (rule upt_conv_Cons) simp
  also have "[Suc (Suc (Suc 0))..<256] = Suc (Suc (Suc 0)) # [Suc (Suc (Suc (Suc 0)))..<256]"
    by (rule upt_conv_Cons) simp
  finally show ?thesis by (simp add: eval_nat_numeral del: upt_Suc)
qed

lemma values_chan_head:
  "values_chan prev p =
     filter (\<lambda>g. \<not> (g = prev ! p \<and> p = 15)) (0 # 1 # 2 # 3 # map of_nat [4..<256])"
  unfolding values_chan_def upt_256_head by (simp add: CipherBlockLen_def del: upt_Suc)

lemma workers_read_stopped [simp]: "workers_read w 0 True stop gs = []"
  by (cases gs) simp_all

subsection \<open>An oracle that answers every query with an error\<close>

lemma done_chan_oracle_down:
  assumes "\<forall>x. snd (q x) = Some e"
  shows "\<exists>r rs. done_chan s q p prev cur mi = r # rs \<and> Err r = Some e"
proof -
  have cv: "checkValuePad q p prev cur mi g = Some \<lparr>Err = Some e, Res = 0\<rparr>" for g
    using assms by (intro checkValuePad_error) simp
  have "guesses_read s q p prev cur mi \<noteq> []"
    unfolding guesses_read_def
    by (simp add: workers_read_nonempty values_chan_nonempty MaxGoroutines_def)
  then have ne: "sort_key (rank s) (guesses_read s q p prev cur mi) \<noteq> []"
    by (metis length_sort length_0_conv)
  have "done_chan s q p prev cur mi =
        map (\<lambda>g. \<lparr>Err = Some e, Res = 0\<rparr>) (sort_key (rank s) (guesses_read s q p prev cur mi))"
    unfolding done_chan_def List.map_filter_def by (simp add: cv)
  then show ?thesis using ne
    by (cases "sort_key (rank s) (guesses_read s q p prev cur mi)") auto
qed

lemma decryptBlock_loop_oracle_down:
  assumes "\<forall>x. snd (q x) = Some e"
  shows "fst (decryptBlock_loop sch prev cur q (Suc p) mi tr) = ([], Some e)"
proof -
  obtain r rs where "done_chan (sch p) q p prev cur mi = r # rs" "Err r = Some e"
    using done_chan_oracle_down [OF assms, where s = "sch p" and p = p and prev = prev
        and cur = cur and mi = mi] by blast
  then show ?thesis by (simp add: Let_def)
qed

lemma decryptBlock_oracle_down:
  assumes "\<forall>x. snd (q x) = Some e" and "length prev = 16"
  shows "decryptBlock sch prev cur q = ([], Some e)"
  using assms(2) decryptBlock_loop_oracle_down [OF assms(1), where sch = sch and prev = prev
      and cur = cur and p = 15 and mi = "replicate 16 0" and tr = "[]"]
  by (simp add: decryptBlock_def decryptBlock_run_def CipherBlockLen_def)

lemma upt_1_Cons: "2 \<le> n \<Longrightarrow> [1..<n] = 1 # [2..<n]"
  by (subst upt_conv_Cons) (auto simp: numeral_2_eq_2)

lemma Decrypt_block_error:
  assumes "fst (decryptBlock_run (sch i) (take CipherBlockLen (drop ((i - 1) * CipherBlockLen) c))
             (take CipherBlockLen (drop (CipherBlockLen * i) c)) q) = (mi, Some e)"
  shows "fst (Decrypt_loop sch c q (i # is) m tr) = ([], Some e)"
  using assms by (auto simp: Let_def split: prod.splits option.splits)

lemma Encrypt_block_error:
  assumes "decryptBlock (sch i) c0 c1 q = (di, Some e)"
  shows "Encrypt_loop sch ctext q (i # is) c0 c1 c = ([], Some e)"
  using assms by simp

lemma Decrypt_first_block:
  assumes "32 \<le> length c" and "length c mod 16 = 0"
  shows "Decrypt sch c q = fst (Decrypt_loop sch c q (1 # [2..<length c div 16]) [] [])"
proof -
  have n: "2 \<le> length c div 16" using assms(1) by simp
  then have "\<not> length c div 16 < 2" by simp
  then show ?thesis
    unfolding Decrypt_def Decrypt_run_def CipherBlockLen_def Let_def upt_1_Cons [OF n]
    using assms(2) by simp
qed

lemma Decrypt_oracle_down:
  assumes "\<forall>x. snd (q x) = Some e" and "32 \<le> length c" and "length c mod 16 = 0"
  shows "Decrypt sch c q = ([], Some e)"
proof -
  have l: "length (take CipherBlockLen (drop ((1 - 1) * CipherBlockLen) c)) = 16"
    using assms(2) by (simp add: CipherBlockLen_def)
  have "fst (decryptBlock_run (sch 1) (take CipherBlockLen (drop ((1 - 1) * CipherBlockLen) c))
          (take CipherBlockLen (drop (CipherBlockLen * 1) c)) q) = ([], Some e)"
    using decryptBlock_oracle_down [OF assms(1) l] unfolding decryptBlock_def .
  then have "fst (Decrypt_loop sch c q (1 # [2..<length c div 16]) [] []) = ([], Some e)"
    by (rule Decrypt_block_error)
  then show ?thesis
    unfolding Decrypt_first_block [OF assms(2,3)] .
qed

lemma rev_upt_Suc: "rev [0..<Suc n] = n # rev [0..<n]"
  by simp

lemma Encrypt_oracle_down:
  assumes "\<forall>x. snd (q x) = Some e"
  shows "Encrypt sch txt q = ([], Some e)"
proof -
  obtain n where n: "length (PCKCS5Pad txt) div 16 = Suc n"
    by (simp add: length_PCKCS5Pad)
  have d: "decryptBlock (sch n) (replicate 16 0) (replicate 16 0) q = ([], Some e)"
    by (rule decryptBlock_oracle_down [OF assms]) simp
  show ?thesis
    unfolding Encrypt_def Let_def CipherBlockLen_def n rev_upt_Suc
    by (rule Encrypt_block_error [where sch = sch and i = n, OF d])
qed

subsection \<open>The first block and the source of an error\<close>

lemma Decrypt_run_first_block:
  assumes "32 \<le> length c" and "length c mod 16 = 0"
  shows "Decrypt_run sch c q = Decrypt_loop sch c q (1 # [2..<length c div 16]) [] []"
proof -
  have n: "2 \<le> length c div 16" using assms(1) by simp
  then have "\<not> length c div 16 < 2" by simp
  then show ?thesis
    unfolding Decrypt_run_def CipherBlockLen_def Let_def upt_1_Cons [OF n]
    using assms(2) by simp
qed

lemma Decrypt_loop_Cons_trace:
  "\<exists>tr'. snd (Decrypt_loop sch c q (i # is) m tr) =
      tr @ snd (decryptBlock_run (sch i) (take CipherBlockLen (drop ((i - 1) * CipherBlockLen) c))
                  (take CipherBlockLen (drop (CipherBlockLen * i) c)) q) @ tr'"
proof (cases "decryptBlock_run (sch i) (take CipherBlockLen (drop ((i - 1) * CipherBlockLen) c))
                  (take CipherBlockLen (drop (CipherBlockLen * i) c)) q")
  case (Pair r tr1)
  obtain mi e where r: "r = (mi, e)" by (cases r)
  show ?thesis
  proof (cases e)
    case None
    obtain tr' where "snd (Decrypt_loop sch c q is (m @ mi) (tr @ tr1)) = (tr @ tr1) @ tr'"
      using Decrypt_loop_trace_prefix by blast
    then show ?thesis using Pair r None by (simp add: Let_def)
  next
    case (Some err)
    then show ?thesis using Pair r by (simp add: Let_def)
  qed
qed

lemma Decrypt_run_trace_nonempty:
  assumes "32 \<le> length c" and "length c mod 16 = 0"
  shows "snd (Decrypt_run sch c q) \<noteq> []"
proof -
  have l: "length (take CipherBlockLen (drop ((1 - 1) * CipherBlockLen) c)) = 16"
    using assms(1) by (simp add: CipherBlockLen_def)
  obtain tr' where "snd (Decrypt_loop sch c q (1 # [2..<length c div 16]) [] []) =
      [] @ snd (decryptBlock_run (sch 1) (take CipherBlockLen (drop ((1 - 1) * CipherBlockLen) c))
                  (take CipherBlockLen (drop (CipherBlockLen * 1) c)) q) @ tr'"
    using Decrypt_loop_Cons_trace by blast
  then show ?thesis
    unfolding Decrypt_run_first_block [OF assms]
    using decryptBlock_run_trace_nonempty [OF l] by simp
qed

lemma decryptBlock_run_error_source:
  assumes "fst (decryptBlock_run sch prev cur q) = (v, Some e)"
  shows "e = ErrNoByteFound \<or> e = Panic \<or>
         (\<exists>x\<in>set (snd (decryptBlock_run sch prev cur q)). snd (q (sent x)) = Some e)"
proof (cases "length prev < CipherBlockLen")
  case True
  then show ?thesis using assms by (simp add: decryptBlock_run_def)
next
  case False
  then show ?thesis
    using assms decryptBlock_loop_error_source [of sch prev cur q CipherBlockLen
        "replicate CipherBlockLen 0" "[]" v e]
    by (auto simp: decryptBlock_run_def)
qed

lemma Decrypt_loop_error_source:
  "fst (Decrypt_loop sch c q is m tr) = (v, Some e) \<Longrightarrow>
   e = ErrNoByteFound \<or> e = Panic \<or>
   (\<exists>x\<in>set (snd (Decrypt_loop sch c q is m tr)). snd (q (sent x)) = Some e)"
proof (induction "is" arbitrary: m tr)
  case Nil
  then show ?case by simp
next
  case (Cons i "is")
  let ?run = "decryptBlock_run (sch i) (take CipherBlockLen (drop ((i - 1) * CipherBlockLen) c))
                  (take CipherBlockLen (drop (CipherBlockLen * i) c)) q"
  obtain mi e' tr1 where run: "?run = ((mi, e'), tr1)" by (cases ?run) auto
  show ?case
  proof (cases e')
    case None
    have "fst (Decrypt_loop sch c q is (m @ mi) (tr @ tr1)) = (v, Some e)"
      using Cons.prems run None by (simp add: Let_def)
    from Cons.IH [OF this] show ?thesis using run None by (simp add: Let_def)
  next
    case (Some err)
    then have e: "err = e" using Cons.prems run by (simp add: Let_def)
    have "fst ?run = (mi, Some e)" using run Some e by simp
    from decryptBlock_run_error_source [OF this] show ?thesis
      using run Some by (auto simp: Let_def)
  qed
qed


subsection \<open>What a run asks the oracle\<close>

lemma queries_at_mem:
  "x \<in> set (queries_at s q p prev cur mi) \<Longrightarrow>
   pos x = p \<and> guess x \<in> set (values_chan prev p) \<and>
   sent x = buildPad p (guess x) prev mi @ cur"
  using set_guesses_read [of s q p prev cur mi]
  by (auto simp: queries_at_def oracle_query_def)

lemma decryptBlock_loop_trace_mem:
  "x \<in> set (snd (decryptBlock_loop sch prev cur q n mi tr)) \<Longrightarrow>
   x \<in> set tr \<or>
   (pos x < n \<and> guess x \<in> set (values_chan prev (pos x)) \<and>
    (\<exists>mi'. sent x = buildPad (pos x) (guess x) prev mi' @ cur))"
proof (induction n arbitrary: mi tr)
  case 0
  then show ?case by simp
next
  case (Suc p)
  let ?tr = "tr @ queries_at (sch p) q p prev cur mi"
  have here: "x \<in> set ?tr \<Longrightarrow> ?case"
    using queries_at_mem [of x "sch p" q p prev cur mi] by auto
  show ?case
  proof (cases "drain_done (done_chan (sch p) q p prev cur mi) 0 False")
    case (Inl e)
    then show ?thesis using Suc.prems here by (simp add: Let_def)
  next
    case (Inr vf)
    obtain val found where vf: "vf = (val, found)" by (cases vf)
    show ?thesis
    proof (cases found)
      case False
      then show ?thesis using Inr vf Suc.prems here by (simp add: Let_def)
    next
      case True
      then have "x \<in> set (snd (decryptBlock_loop sch prev cur q p
          (mi[p := val XOR prev ! p XOR ((of_nat CipherBlockLen :: byte) - of_nat p)]) ?tr))"
        using Inr vf Suc.prems by (simp add: Let_def)
      from Suc.IH [OF this] show ?thesis using here by auto
    qed
  qed
qed

lemma sent_at_pos:
  assumes "sent x = buildPad p g prev mi' @ cur" "p < 16"
  shows "sent x ! p = g"
  using assms by (simp add: nth_append buildPad_nth)


lemma decryptBlock_loop_trace_first:
  "\<exists>tr'. snd (decryptBlock_loop sch prev cur q (Suc p) mi tr) =
          tr @ queries_at (sch p) q p prev cur mi @ tr'"
proof (cases "drain_done (done_chan (sch p) q p prev cur mi) 0 False")
  case (Inl e)
  then show ?thesis by (simp add: Let_def)
next
  case (Inr vf)
  obtain val found where vf: "vf = (val, found)" by (cases vf)
  show ?thesis
  proof (cases found)
    case False
    then show ?thesis using Inr vf by (simp add: Let_def)
  next
    case True
    obtain tr' where "snd (decryptBlock_loop sch prev cur q p
        (mi[p := val XOR prev ! p XOR ((of_nat CipherBlockLen :: byte) - of_nat p)])
        (tr @ queries_at (sch p) q p prev cur mi)) = (tr @ queries_at (sch p) q p prev cur mi) @ tr'"
      using decryptBlock_loop_trace_prefix by blast
    then show ?thesis using Inr vf True by (simp add: Let_def)
  qed
qed

lemma hd_values_read:
  "hd (values_chan prev p) \<in> set (guesses_read s q p prev cur mi)"
  unfolding guesses_read_def using values_chan_nonempty [of prev p]
  by (cases "values_chan prev p") (simp_all add: MaxGoroutines_def)

lemma first_query_in_run:
  assumes "length prev = 16"
  shows "\<lparr>pos = 15, guess = hd (values_chan prev 15),
           sent = oracle_query 15 prev cur (replicate 16 0) (hd (values_chan prev 15))\<rparr>
         \<in> set (snd (decryptBlock_run sch prev cur q))"
proof -
  obtain tr' where "snd (decryptBlock_loop sch prev cur q (Suc 15) (replicate 16 0) []) =
      [] @ queries_at (sch 15) q 15 prev cur (replicate 16 0) @ tr'"
    using decryptBlock_loop_trace_first by blast
  then show ?thesis
    using assms query_in_queries_at [OF hd_values_read [where prev = prev and p = 15
        and s = "sch 15" and q = q and cur = cur and mi = "replicate 16 0"]]
    by (simp add: decryptBlock_run_def CipherBlockLen_def)
qed

lemma hd_values_chan_test_iv: "hd (values_chan test_iv 15) = 0"
  unfolding values_chan_head by (simp add: test_iv_def)


lemma decryptBlock_loop_all_rejected:
  assumes "\<forall>g\<in>set (values_chan prev p). \<exists>res. q (oracle_query p prev cur mi g) = (res, None) \<and> res \<le> 0"
  shows "decryptBlock_loop sch prev cur q (Suc p) mi tr =
         (([], Some ErrNoByteFound), tr @ queries_at (sch p) q p prev cur mi)"
proof -
  have "\<forall>g\<in>set (values_chan prev p). checkValuePad q p prev cur mi g = None"
    using assms by (simp add: checkValuePad_None_iff)
  then have "done_chan (sch p) q p prev cur mi = []" by (rule done_chan_all_rejected)
  then show ?thesis by (rule decryptBlock_loop_Suc_none)
qed

lemma decryptBlock_loop_query_error:
  assumes "\<exists>g\<in>set (guesses_read (sch p) q p prev cur mi). snd (q (oracle_query p prev cur mi g)) \<noteq> None"
  shows "\<exists>g\<in>set (guesses_read (sch p) q p prev cur mi). \<exists>e.
           snd (q (oracle_query p prev cur mi g)) = Some e \<and>
           decryptBlock_loop sch prev cur q (Suc p) mi tr =
             (([], Some e), tr @ queries_at (sch p) q p prev cur mi)"
proof -
  let ?d = "done_chan (sch p) q p prev cur mi"
  obtain g e where g: "g \<in> set (guesses_read (sch p) q p prev cur mi)"
      "snd (q (oracle_query p prev cur mi g)) = Some e"
    using assms by auto
  have "\<lparr>Err = Some e, Res = 0\<rparr> \<in> set ?d"
    unfolding done_chan_mem using g checkValuePad_error by blast
  then have "\<exists>r\<in>set ?d. Err r \<noteq> None" by force
  then obtain e' where e': "drain_done ?d 0 False = Inl e'"
    using drain_done_has_error by blast
  obtain r where r: "r \<in> set ?d" "Err r = Some e'" using drain_done_Inl [OF e'] by blast
  then obtain g' where g': "g' \<in> set (guesses_read (sch p) q p prev cur mi)"
      "checkValuePad q p prev cur mi g' = Some r"
    unfolding done_chan_mem by blast
  have "snd (q (oracle_query p prev cur mi g')) = Some e'"
    using checkValuePad_Err [OF g'(2)] r(2) by simp
  then show ?thesis
    using g'(1) decryptBlock_loop_Suc_error [where sch = sch and p = p, OF e'] by blast
qed

lemma Decrypt_block_abort:
  assumes "fst (decryptBlock_run (sch i) (take CipherBlockLen (drop ((i - 1) * CipherBlockLen) c))
             (take CipherBlockLen (drop (CipherBlockLen * i) c)) q) = (mi, Some e)"
  shows "Decrypt_loop sch c q (i # is) m tr =
     (([], Some e), tr @ snd (decryptBlock_run (sch i)
        (take CipherBlockLen (drop ((i - 1) * CipherBlockLen) c))
        (take CipherBlockLen (drop (CipherBlockLen * i) c)) q))"
  using assms by (auto simp: Let_def split: prod.splits option.splits)


section \<open>The toy cipher, excluded blocks and the test data\<close>

lemma xor_cipher_involution:
  "length x = length key \<Longrightarrow> xor_cipher key (xor_cipher key x) = x"
  by (simp add: xor_cipher_def BlockXOR_cancel)

lemma length_xor_cipher [simp]: "length (xor_cipher key x) = length x"
  by (simp add: xor_cipher_def)

lemma block_cipher_xor: "length key = 16 \<Longrightarrow> block_cipher (xor_cipher key) (xor_cipher key)"
  by (simp add: block_cipher_def xor_cipher_involution)

lemma BlockXOR_map2:
  "length key = length b \<Longrightarrow> BlockXOR b key = map2 (XOR) b key"
  by (rule nth_equalityI) (simp_all add: BlockXOR_nth16)

lemma rightmost_excluded_iff:
  "rightmost_excluded b \<longleftrightarrow> (b ! 15 = 1 \<and> (\<forall>k. 2 \<le> k \<and> k < 17 \<longrightarrow> \<not> longer_pad b k))"
  unfolding rightmost_excluded_def by (auto simp only: mem_upt_iff)

lemma decryptBlock_excluded:
  assumes cur: "length cur = 16" and I: "length (dec cur) = 16" and prev: "length prev = 16"
    and X: "rightmost_excluded (BlockXOR (dec cur) prev)"
  shows "decryptBlock sch prev cur (testOracle_Do dec) = ([], Some ErrNoByteFound)"
proof -
  let ?q = "testOracle_Do dec"
  let ?z = "replicate 16 (0 :: byte)"
  have one: "BlockXOR (dec cur) prev ! 15 = 1"
    and nolonger: "\<And>k. 2 \<le> k \<Longrightarrow> k \<le> 16 \<Longrightarrow> \<not> longer_pad (BlockXOR (dec cur) prev) k"
    using X unfolding rightmost_excluded_iff by auto
  have "checkValuePad ?q 15 prev cur ?z g = None" if "g \<in> set (values_chan prev 15)" for g
  proof -
    have gne: "g \<noteq> prev ! 15" using that by (simp add: set_values_chan)
    have "\<not> pad_valid (BlockXOR (dec cur) (buildPad 15 g prev ?z))"
      by (rule pad_valid_rightmost_excluded [OF I prev one _ gne]) (rule nolonger)
    then show ?thesis by (simp add: checkValuePad_testOracle [where dec = dec, OF cur I])
  qed
  then have "done_chan (sch 15) ?q 15 prev cur ?z = []"
    by (intro done_chan_all_rejected) simp
  then have "decryptBlock_loop sch prev cur ?q (Suc 15) ?z [] =
      (([], Some ErrNoByteFound), [] @ queries_at (sch 15) ?q 15 prev cur ?z)"
    by (rule decryptBlock_loop_Suc_none)
  then show ?thesis
    using prev by (simp add: decryptBlock_def decryptBlock_run_def CipherBlockLen_def)
qed

lemma pad_hello: "PCKCS5Pad hello_world =
  [0x48, 0x65, 0x6c, 0x6c, 0x6f, 0x20, 0x77, 0x6f, 0x72, 0x6c, 0x64, 5, 5, 5, 5, 5]"
  by code_simp

lemma pad_hello15: "PCKCS5Pad hello_world15 =
  [0x48, 0x65, 0x6c, 0x6c, 0x6f, 0x20, 0x77, 0x6f, 0x72, 0x6c, 0x64, 0x21, 0x21, 0x21, 0x21, 1]"
  by code_simp

lemma unamb_hello: "rightmost_unambiguous (PCKCS5Pad hello_world)"
  by code_simp

lemma excl_hello15: "rightmost_excluded (PCKCS5Pad hello_world15)"
  by code_simp

lemma hello_block_len: "length hello_block = 16" by code_simp
lemma hello15_block_len: "length hello15_block = 16" by code_simp
lemma test_iv_len: "length test_iv = 16" by code_simp
lemma test_key_len: "length test_key = 16" by code_simp

lemma hello_block_plain:
  "BlockXOR (xor_cipher test_key hello_block) test_iv = PCKCS5Pad hello_world"
  by code_simp

lemma hello15_block_plain:
  "BlockXOR (xor_cipher test_key hello15_block) test_iv = PCKCS5Pad hello_world15"
  by code_simp


lemma hello15_ciphertext:
  "fst (CBCEncrypt (xor_cipher test_key) test_iv hello_world15) = test_iv @ hello15_block"
  by code_simp


section \<open>CBC mode and the decrypt driver against the true decryptor\<close>

lemma blk_concat:
  "\<forall>b\<in>set bl. length b = 16 \<Longrightarrow> i < length bl \<Longrightarrow>
   take 16 (drop (16 * i) (concat bl)) = bl ! i"
proof (induction bl arbitrary: i)
  case Nil
  then show ?case by simp
next
  case (Cons b bl)
  show ?case
  proof (cases i)
    case 0
    then show ?thesis using Cons.prems by simp
  next
    case (Suc j)
    have "drop (16 * Suc j) (b @ concat bl) = drop (16 * j) (concat bl)"
      using Cons.prems(1) by simp
    then show ?thesis using Suc Cons by simp
  qed
qed

lemma length_concat16:
  "\<forall>b\<in>set bl. length b = 16 \<Longrightarrow> length (concat bl) = 16 * length bl"
  by (induction bl) simp_all

lemma CBCEncrypt_loop_chain:
  "CBCEncrypt_loop enc m is prev ct =
   ct @ concat (cbc_chain enc (map (\<lambda>i. take 16 (drop (i * 16) m)) is) prev)"
  by (induction "is" arbitrary: prev ct) (simp_all add: Let_def)

lemma length_cbc_chain [simp]: "length (cbc_chain enc bs prev) = length bs"
  by (induction bs arbitrary: prev) (simp_all add: Let_def)

lemma cbc_chain_blocks:
  "\<forall>x. length x = 16 \<longrightarrow> length (enc x) = 16 \<Longrightarrow> \<forall>b\<in>set bs. length b = 16 \<Longrightarrow>
   \<forall>x\<in>set (cbc_chain enc bs prev). length x = 16"
  by (induction bs arbitrary: prev) (simp_all add: Let_def)

lemma cbc_plain_chain:
  assumes "block_cipher enc dec"
  shows "length iv = 16 \<Longrightarrow> \<forall>b\<in>set bs. length b = 16 \<Longrightarrow>
         cbc_plain dec (iv # cbc_chain enc bs iv) = bs"
proof (induction bs arbitrary: iv)
  case Nil
  then show ?case by simp
next
  case (Cons b bs)
  let ?x = "enc (BlockXOR b iv)"
  have b: "length b = 16" using Cons.prems by simp
  then have lx: "length (BlockXOR b iv) = 16" by simp
  then have x: "length ?x = 16" "dec ?x = BlockXOR b iv"
    using assms unfolding block_cipher_def by blast+
  have "BlockXOR (dec ?x) iv = b"
    unfolding x(2) using b Cons.prems(1) by (simp add: BlockXOR_cancel)
  moreover have "cbc_plain dec (?x # cbc_chain enc bs ?x) = bs"
    using Cons.prems(2) by (intro Cons.IH x(1)) simp
  ultimately show ?case
    by (cases "cbc_chain enc bs ?x") (simp_all add: Let_def)
qed

lemma concat_blocks_take:
  "concat (map (\<lambda>i. take 16 (drop (i * 16) m)) [0..<n]) = take (16 * n) m"
proof (induction n)
  case 0
  then show ?case by simp
next
  case (Suc n)
  have "take (16 * Suc n) m = take (16 * n) m @ take 16 (drop (16 * n) m)"
    by (simp add: take_add [symmetric] add.commute)
  then show ?case using Suc by (simp add: mult.commute)
qed

lemma concat_blocks16: "length m mod 16 = 0 \<Longrightarrow> concat (blocks16 m) = m"
  unfolding blocks16_def concat_blocks_take by auto

lemma blocks16_lengths: "\<forall>b\<in>set (blocks16 m). length b = 16"
proof -
  have "length (take 16 (drop (i * 16) m)) = 16" if "i < length m div 16" for i
  proof -
    have "Suc i \<le> length m div 16" using that by simp
    then have "Suc i * 16 \<le> length m" by (simp add: less_eq_div_iff_mult_less_eq)
    then show ?thesis by simp
  qed
  then show ?thesis by (auto simp: blocks16_def)
qed

lemma length_blocks16 [simp]: "length (blocks16 m) = length m div 16"
  by (simp add: blocks16_def)

lemma cbc_plain_map:
  "cbc_plain dec bl = map (\<lambda>i. BlockXOR (dec (bl ! i)) (bl ! (i - 1))) [1..<length bl]"
proof (induction dec bl rule: cbc_plain.induct)
  case (1 dec b0 b1 bs)
  have "[1..<length (b0 # b1 # bs)] = 1 # map Suc [1..<length (b1 # bs)]"
    by (simp add: map_Suc_upt upt_conv_Cons del: upt_Suc)
  moreover have "map ((\<lambda>i. BlockXOR (dec ((b0 # b1 # bs) ! i)) ((b0 # b1 # bs) ! (i - 1))) \<circ> Suc)
        [1..<length (b1 # bs)] =
      map (\<lambda>i. BlockXOR (dec ((b1 # bs) ! i)) ((b1 # bs) ! (i - 1))) [1..<length (b1 # bs)]"
    by (rule map_cong [OF refl]) (auto simp: nth_Cons split: nat.splits)
  ultimately show ?case using 1 by (simp del: upt_Suc)
qed simp_all

lemma Decrypt_loop_true_oracle:
  assumes bl: "\<forall>b\<in>set bl. length b = 16"
    and dl: "\<forall>x. length x = 16 \<longrightarrow> length (dec x) = 16"
  shows "\<forall>i\<in>set is. 1 \<le> i \<and> i < length bl \<and>
             rightmost_unambiguous (BlockXOR (dec (bl ! i)) (bl ! (i - 1))) \<Longrightarrow>
         fst (Decrypt_loop sch (concat bl) (testOracle_Do dec) is m tr) =
           (m @ concat (map (\<lambda>i. BlockXOR (dec (bl ! i)) (bl ! (i - 1))) is), None)"
proof (induction "is" arbitrary: m tr)
  case Nil
  then show ?case by simp
next
  case (Cons i "is")
  have i: "1 \<le> i" "i < length bl"
    and U: "rightmost_unambiguous (BlockXOR (dec (bl ! i)) (bl ! (i - 1)))"
    using Cons.prems by simp_all
  have c0: "take CipherBlockLen (drop ((i - 1) * CipherBlockLen) (concat bl)) = bl ! (i - 1)"
    using blk_concat [OF bl, of "i - 1"] i by (simp add: CipherBlockLen_def mult.commute)
  have c1: "take CipherBlockLen (drop (CipherBlockLen * i) (concat bl)) = bl ! i"
    using blk_concat [OF bl, of i] i by (simp add: CipherBlockLen_def)
  have l: "length (bl ! i) = 16" "length (bl ! (i - 1)) = 16"
    using bl i by simp_all
  then have ld: "length (dec (bl ! i)) = 16" using dl by blast
  have "decryptBlock (sch i) (bl ! (i - 1)) (bl ! i) (testOracle_Do dec) =
        (BlockXOR (dec (bl ! i)) (bl ! (i - 1)), None)"
    by (rule decryptBlock_true_oracle [where dec = dec, OF l(1) ld l(2) U])
  then obtain tr' where run: "decryptBlock_run (sch i) (bl ! (i - 1)) (bl ! i) (testOracle_Do dec) =
      ((BlockXOR (dec (bl ! i)) (bl ! (i - 1)), None), tr')"
    unfolding decryptBlock_def
    by (cases "decryptBlock_run (sch i) (bl ! (i - 1)) (bl ! i) (testOracle_Do dec)") auto
  have "fst (Decrypt_loop sch (concat bl) (testOracle_Do dec) is
          (m @ BlockXOR (dec (bl ! i)) (bl ! (i - 1))) (tr @ tr')) =
        ((m @ BlockXOR (dec (bl ! i)) (bl ! (i - 1))) @
           concat (map (\<lambda>i. BlockXOR (dec (bl ! i)) (bl ! (i - 1))) is), None)"
    using Cons.prems by (intro Cons.IH) simp
  then show ?case unfolding Decrypt_loop.simps Let_def c0 c1 run by simp
qed

lemma Decrypt_blocks_true_oracle:
  assumes bl: "\<forall>b\<in>set bl. length b = 16" and n: "2 \<le> length bl"
    and dl: "\<forall>x. length x = 16 \<longrightarrow> length (dec x) = 16"
    and U: "\<forall>b\<in>set (cbc_plain dec bl). rightmost_unambiguous b"
  shows "Decrypt sch (concat bl) (testOracle_Do dec) = (concat (cbc_plain dec bl), None)"
proof -
  have len: "length (concat bl) = 16 * length bl" by (rule length_concat16 [OF bl])
  have d: "length (concat bl) div CipherBlockLen = length bl"
    "length (concat bl) mod CipherBlockLen = 0"
    by (simp_all add: len CipherBlockLen_def)
  have "\<forall>i\<in>set [1..<length bl]. 1 \<le> i \<and> i < length bl \<and>
          rightmost_unambiguous (BlockXOR (dec (bl ! i)) (bl ! (i - 1)))"
    using U unfolding cbc_plain_map by auto
  then have "fst (Decrypt_loop sch (concat bl) (testOracle_Do dec) [1..<length bl] [] []) =
      ([] @ concat (map (\<lambda>i. BlockXOR (dec (bl ! i)) (bl ! (i - 1))) [1..<length bl]), None)"
    by (rule Decrypt_loop_true_oracle [OF bl dl])
  then show ?thesis
    using n unfolding Decrypt_def Decrypt_run_def Let_def d cbc_plain_map by simp
qed

lemma CBCEncrypt_blocks:
  assumes "iv \<noteq> []"
  shows "CBCEncrypt enc iv msg =
         (concat (iv # cbc_chain enc (blocks16 (PCKCS5Pad msg)) iv), None)"
  using assms by (simp add: CBCEncrypt_def Let_def CBCEncrypt_loop_chain blocks16_def)

lemma Decrypt_CBCEncrypt:
  assumes bc: "block_cipher enc dec" and iv: "length iv = 16"
    and U: "blocks_unambiguous (PCKCS5Pad msg)"
  shows "Decrypt sch (fst (CBCEncrypt enc iv msg)) (testOracle_Do dec) = (PCKCS5Pad msg, None)"
proof -
  let ?m = "PCKCS5Pad msg"
  let ?bl = "iv # cbc_chain enc (blocks16 ?m) iv"
  have ne: "iv \<noteq> []" using iv by auto
  have el: "\<forall>x. length x = 16 \<longrightarrow> length (enc x) = 16"
    and dl: "\<forall>x. length x = 16 \<longrightarrow> length (dec x) = 16"
    using bc unfolding block_cipher_def by blast+
  have bl: "\<forall>b\<in>set ?bl. length b = 16"
    using cbc_chain_blocks [OF el blocks16_lengths, of ?m iv] iv by simp
  have n: "2 \<le> length ?bl" by (simp add: length_PCKCS5Pad)
  have pl: "cbc_plain dec ?bl = blocks16 ?m"
    by (rule cbc_plain_chain [OF bc iv blocks16_lengths])
  have U': "\<forall>b\<in>set (cbc_plain dec ?bl). rightmost_unambiguous b"
    unfolding pl using U by (simp add: blocks_unambiguous_def)
  have "Decrypt sch (concat ?bl) (testOracle_Do dec) = (concat (cbc_plain dec ?bl), None)"
    by (rule Decrypt_blocks_true_oracle [OF bl n dl U'])
  also have "concat (cbc_plain dec ?bl) = ?m"
    unfolding pl by (rule concat_blocks16) (simp add: length_PCKCS5Pad)
  finally show ?thesis by (simp add: CBCEncrypt_blocks [OF ne])
qed

section \<open>The encrypt driver against the true decryptor\<close>

lemma BlockXOR_zero: "length x = 16 \<Longrightarrow> BlockXOR x (replicate 16 0) = x"
  by (rule nth_equalityI) (simp_all add: BlockXOR_nth16)

lemma BlockXOR_cancel_left: "length a = length b \<Longrightarrow> BlockXOR a (BlockXOR b a) = b"
  by (rule nth_equalityI) (simp_all add: BlockXOR_nth16 xor.assoc xor.commute xor.left_commute)

lemma CBCDecrypt_loop_plain:
  "CBCDecrypt_loop dec c is prev m =
   m @ concat (cbc_plain dec (prev # map (\<lambda>i. take 16 (drop (i * 16) c)) is))"
  by (induction "is" arbitrary: prev m) (simp_all add: Let_def)

lemma map_blk_concat:
  assumes "\<forall>b\<in>set bl. length b = 16"
  shows "map (\<lambda>i. take 16 (drop (i * 16) (concat bl))) [0..<length bl] = bl"
proof (rule nth_equalityI)
  show "length (map (\<lambda>i. take 16 (drop (i * 16) (concat bl))) [0..<length bl]) = length bl"
    by simp
next
  fix i assume "i < length (map (\<lambda>i. take 16 (drop (i * 16) (concat bl))) [0..<length bl])"
  then have i: "i < length bl" by simp
  then show "map (\<lambda>i. take 16 (drop (i * 16) (concat bl))) [0..<length bl] ! i = bl ! i"
    using blk_concat [OF assms i] by (simp add: mult.commute)
qed

lemma CBCDecrypt_blocks:
  assumes bl: "\<forall>b\<in>set (b0 # bl). length b = 16"
  shows "CBCDecrypt dec (concat (b0 # bl)) = DecryptRemovePCKCS5Pad (concat (cbc_plain dec (b0 # bl)))"
proof -
  have b0: "length b0 = 16" and bl': "\<forall>b\<in>set bl. length b = 16" using bl by simp_all
  have len: "length (concat bl) = 16 * length bl" by (rule length_concat16 [OF bl'])
  show ?thesis
    using b0 unfolding CBCDecrypt_def Let_def CBCDecrypt_loop_plain
    by (simp add: len map_blk_concat [OF bl'])
qed

lemma Encrypt_loop_true_oracle:
  assumes dl: "\<forall>x. length x = 16 \<longrightarrow> length (dec x) = 16"
  shows "forge_unambiguous dec ctext is cur \<Longrightarrow> length cur = 16 \<Longrightarrow>
         \<forall>i\<in>set is. length (take 16 (drop (16 * i) ctext)) = 16 \<Longrightarrow>
         \<forall>b\<in>set bl. length b = 16 \<Longrightarrow>
         \<exists>bl'. Encrypt_loop sch ctext (testOracle_Do dec) is (replicate 16 0) cur (concat (cur # bl)) =
                  (concat bl', None) \<and>
               bl' \<noteq> [] \<and> (\<forall>b\<in>set bl'. length b = 16) \<and>
               cbc_plain dec bl' =
                 map (\<lambda>i. take 16 (drop (16 * i) ctext)) (rev is) @ cbc_plain dec (cur # bl)"
proof (induction "is" arbitrary: cur bl)
  case Nil
  then show ?case by (intro exI [of _ "cur # bl"]) simp
next
  case (Cons i "is")
  let ?z = "replicate 16 (0 :: byte)"
  let ?ti = "take 16 (drop (16 * i) ctext)"
  let ?new = "BlockXOR ?ti (dec cur)"
  have U: "rightmost_unambiguous (dec cur)" and F: "forge_unambiguous dec ctext is ?new"
    using Cons.prems(1) by (simp_all add: CipherBlockLen_def)
  have ld: "length (dec cur) = 16" using dl Cons.prems(2) by blast
  have ti: "length ?ti = 16" using Cons.prems(3) by simp
  have U': "rightmost_unambiguous (BlockXOR (dec cur) ?z)" using U ld by (simp add: BlockXOR_zero)
  have d: "decryptBlock (sch i) ?z cur (testOracle_Do dec) = (dec cur, None)"
    using decryptBlock_true_oracle [where dec = dec, OF Cons.prems(2) ld _ U'] ld
    by (simp add: BlockXOR_zero)
  have new: "length ?new = 16" using ti by simp
  have "\<exists>bl'. Encrypt_loop sch ctext (testOracle_Do dec) is ?z ?new (concat (?new # cur # bl)) =
                  (concat bl', None) \<and>
               bl' \<noteq> [] \<and> (\<forall>b\<in>set bl'. length b = 16) \<and>
               cbc_plain dec bl' =
                 map (\<lambda>i. take 16 (drop (16 * i) ctext)) (rev is) @ cbc_plain dec (?new # cur # bl)"
    using Cons.prems by (intro Cons.IH F new) simp_all
  then obtain bl' where bl': "Encrypt_loop sch ctext (testOracle_Do dec) is ?z ?new
        (concat (?new # cur # bl)) = (concat bl', None)"
      "bl' \<noteq> []" "\<forall>b\<in>set bl'. length b = 16"
      "cbc_plain dec bl' =
         map (\<lambda>i. take 16 (drop (16 * i) ctext)) (rev is) @ cbc_plain dec (?new # cur # bl)"
    by blast
  have "BlockXOR (dec cur) ?new = ?ti" using ld ti by (simp add: BlockXOR_cancel_left)
  then have pl: "cbc_plain dec (?new # cur # bl) = ?ti # cbc_plain dec (cur # bl)" by simp
  have "Encrypt_loop sch ctext (testOracle_Do dec) (i # is) ?z cur (concat (cur # bl)) =
        (concat bl', None)"
    using bl'(1) by (simp add: d Let_def CipherBlockLen_def)
  moreover have "cbc_plain dec bl' =
      map (\<lambda>i. take 16 (drop (16 * i) ctext)) (rev (i # is)) @ cbc_plain dec (cur # bl)"
    unfolding bl'(4) pl by simp
  ultimately show ?case using bl'(2,3) by blast
qed

lemma Encrypt_true_oracle:
  assumes dl: "\<forall>x. length x = 16 \<longrightarrow> length (dec x) = 16"
    and F: "forge_unambiguous dec (PCKCS5Pad P) (rev [0..<length (PCKCS5Pad P) div 16])
              (replicate 16 0)"
  shows "\<exists>c. Encrypt sch P (testOracle_Do dec) = (c, None) \<and> CBCDecrypt dec c = (P, None)"
proof -
  let ?ctext = "PCKCS5Pad P"
  let ?n = "length ?ctext div 16"
  let ?z = "replicate 16 (0 :: byte)"
  have blk: "\<forall>i\<in>set (rev [0..<?n]). length (take 16 (drop (16 * i) ?ctext)) = 16"
    using blocks16_lengths [of ?ctext] by (auto simp: blocks16_def mult.commute)
  obtain bl' where bl': "Encrypt_loop sch ?ctext (testOracle_Do dec) (rev [0..<?n]) ?z ?z
        (concat (?z # [])) = (concat bl', None)"
      "bl' \<noteq> []" "\<forall>b\<in>set bl'. length b = 16"
      "cbc_plain dec bl' =
         map (\<lambda>i. take 16 (drop (16 * i) ?ctext)) (rev (rev [0..<?n])) @ cbc_plain dec (?z # [])"
    using Encrypt_loop_true_oracle [OF dl F _ blk, of "[]" sch] by auto
  have pl: "cbc_plain dec bl' = blocks16 ?ctext"
    unfolding bl'(4) by (simp add: blocks16_def mult.commute)
  obtain b0 rest where br: "bl' = b0 # rest" using bl'(2) by (cases bl') auto
  have "CBCDecrypt dec (concat bl') = DecryptRemovePCKCS5Pad (concat (cbc_plain dec bl'))"
    using bl'(3) unfolding br by (rule CBCDecrypt_blocks)
  also have "concat (cbc_plain dec bl') = ?ctext"
    unfolding pl by (rule concat_blocks16) (simp add: length_PCKCS5Pad)
  finally have "CBCDecrypt dec (concat bl') = (P, None)"
    by (simp add: DecryptRemove_PCKCS5Pad)
  moreover have "Encrypt sch P (testOracle_Do dec) = (concat bl', None)"
    using bl'(1) by (simp add: Encrypt_def Let_def CipherBlockLen_def)
  ultimately show ?thesis by blast
qed


lemma weak_key_len: "length weak_key = 16" by code_simp

lemma weak_key_excluded:
  "rightmost_excluded (BlockXOR (xor_cipher weak_key (replicate 16 0)) (replicate 16 0))"
  by code_simp


section \<open>A block recovery with two valid guesses at the right-most position\<close>

lemma values_chan_15_head:
  assumes "prev ! 15 \<notin> {0, 1, 2, 3}"
  shows "\<exists>rest. values_chan prev 15 = 0 # 1 # 2 # 3 # rest"
proof -
  have "values_chan prev 15 =
      0 # 1 # 2 # 3 # filter (\<lambda>g. \<not> (g = prev ! 15 \<and> (15::nat) = 15)) (map of_nat [4..<256])"
    unfolding values_chan_head using assms by (simp del: upt_Suc upt_rec_numeral filter_map)
  then show ?thesis by blast
qed

lemma values_chan_inner_head:
  assumes "p \<noteq> 15"
  shows "\<exists>rest. values_chan prev p = 0 # rest"
  unfolding values_chan_head using assms by simp

lemma workers_read_first_stop:
  "0 < w \<Longrightarrow> stop g \<Longrightarrow> workers_read w 0 False stop (g # gs) = [g]"
  by simp

lemma racy_test_iv_15: "test_iv ! 15 \<notin> {0, 1, 2, 3}" by code_simp

lemma racy_cv0:
  "checkValuePad (testOracle_Do (xor_cipher test_key)) 15 test_iv racy_block (replicate 16 0) 0 = None"
  by code_simp

lemma racy_cv1:
  "checkValuePad (testOracle_Do (xor_cipher test_key)) 15 test_iv racy_block (replicate 16 0) 1 =
     Some \<lparr>Err = None, Res = 1\<rparr>"
  by code_simp

lemma racy_cv2:
  "checkValuePad (testOracle_Do (xor_cipher test_key)) 15 test_iv racy_block (replicate 16 0) 2 =
     Some \<lparr>Err = None, Res = 2\<rparr>"
  by code_simp

lemma racy_read_race:
  "guesses_read sched_race (testOracle_Do (xor_cipher test_key)) 15 test_iv racy_block
     (replicate 16 0) = [0, 1, 2]"
proof -
  obtain rest where "values_chan test_iv 15 = 0 # 1 # 2 # 3 # rest"
    using values_chan_15_head [OF racy_test_iv_15] by blast
  then show ?thesis
    by (simp add: guesses_read_def sched_race_def MaxGoroutines_def racy_cv0 racy_cv1 racy_cv2)
qed

lemma racy_read_0:
  "guesses_read sched0 (testOracle_Do (xor_cipher test_key)) 15 test_iv racy_block
     (replicate 16 0) = [0, 1]"
proof -
  obtain rest where "values_chan test_iv 15 = 0 # 1 # 2 # 3 # rest"
    using values_chan_15_head [OF racy_test_iv_15] by blast
  then show ?thesis
    by (simp add: guesses_read_def sched0_def MaxGoroutines_def racy_cv0 racy_cv1 racy_cv2)
qed

lemma sort_unat_012: "sort_key unat [0, 1, 2 :: byte] = [0, 1, 2]" by code_simp
lemma sort_unat_01: "sort_key unat [0, 1 :: byte] = [0, 1]" by code_simp

lemma racy_done_race:
  "done_chan sched_race (testOracle_Do (xor_cipher test_key)) 15 test_iv racy_block
     (replicate 16 0) = [\<lparr>Err = None, Res = 1\<rparr>, \<lparr>Err = None, Res = 2\<rparr>]"
  unfolding done_chan_def racy_read_race
  by (simp add: sched_race_def sort_unat_012 racy_cv0 racy_cv1 racy_cv2)

lemma racy_done_0:
  "done_chan sched0 (testOracle_Do (xor_cipher test_key)) 15 test_iv racy_block
     (replicate 16 0) = [\<lparr>Err = None, Res = 1\<rparr>]"
  unfolding done_chan_def racy_read_0
  by (simp add: sched0_def sort_unat_01 racy_cv0 racy_cv1)

lemma racy_sent_14:
  "oracle_query 15 test_iv racy_block (replicate 16 0) 0 ! 14 = test_iv ! 14"
  "oracle_query 15 test_iv racy_block (replicate 16 0) 1 ! 14 = test_iv ! 14"
  "oracle_query 15 test_iv racy_block (replicate 16 0) 2 ! 14 = test_iv ! 14"
  by code_simp+

lemma queries_at_untouched:
  assumes "x \<in> set (queries_at s q p prev cur mi)" and "p < 16"
  shows "guess x \<in> set (values_chan prev p) \<and> sent x = buildPad p (guess x) prev mi @ cur \<and>
         (\<forall>i<p. sent x ! i = prev ! i)"
proof -
  have m: "guess x \<in> set (values_chan prev p)" "sent x = buildPad p (guess x) prev mi @ cur"
    using queries_at_mem [OF assms(1)] by simp_all
  have "sent x ! i = prev ! i" if "i < p" for i
  proof -
    have "i < 16" using that assms(2) by simp
    then show ?thesis using that assms(2) unfolding m(2) by (simp add: nth_append buildPad_nth)
  qed
  then show ?thesis using m by blast
qed


section \<open>Runs without races do not depend on the schedule\<close>

lemma length_map_filter:
  "length (List.map_filter f xs) = length (filter (\<lambda>x. f x \<noteq> None) xs)"
  by (simp add: List.map_filter_def)

lemma decryptBlock_loop_race_free:
  "race_free q prev cur n mi \<Longrightarrow>
   fst (decryptBlock_loop s1 prev cur q n mi tr1) = fst (decryptBlock_loop s2 prev cur q n mi tr2)"
proof (induction n arbitrary: mi tr1 tr2)
  case 0
  then show ?case by simp
next
  case (Suc p)
  let ?L = "List.map_filter (checkValuePad q p prev cur mi) (values_chan prev p)"
  have le: "length ?L \<le> 1"
    using Suc.prems by (cases ?L rule: remdups_adj.cases) simp_all
  then have "length (filter (\<lambda>g. checkValuePad q p prev cur mi g \<noteq> None) (values_chan prev p)) \<le> 1"
    by (simp only: length_map_filter)
  then have d: "done_chan s q p prev cur mi = ?L" for s
    by (rule done_chan_le1)
  show ?case
  proof (cases ?L)
    case Nil
    then show ?thesis by (simp add: d Let_def)
  next
    case (Cons r rs)
    then have L: "?L = [r]" using le by simp
    show ?thesis
    proof (cases "Err r")
      case (Some e)
      then show ?thesis by (simp add: d L Let_def)
    next
      case None
      let ?mi = "mi[p := Res r XOR prev ! p XOR ((of_nat CipherBlockLen :: byte) - of_nat p)]"
      have "race_free q prev cur p ?mi" using Suc.prems L None by simp
      then have "fst (decryptBlock_loop s1 prev cur q p ?mi (tr1 @ queries_at (s1 p) q p prev cur mi)) =
          fst (decryptBlock_loop s2 prev cur q p ?mi (tr2 @ queries_at (s2 p) q p prev cur mi))"
        by (rule Suc.IH)
      then show ?thesis using None by (simp add: d L Let_def)
    qed
  qed
qed

lemma decryptBlock_run_race_free:
  "race_free q prev cur CipherBlockLen (replicate CipherBlockLen 0) \<Longrightarrow>
   fst (decryptBlock_run s1 prev cur q) = fst (decryptBlock_run s2 prev cur q)"
  unfolding decryptBlock_run_def using decryptBlock_loop_race_free by auto

lemma Decrypt_loop_race_free:
  "\<forall>i\<in>set is. race_free q (take CipherBlockLen (drop ((i - 1) * CipherBlockLen) c))
       (take CipherBlockLen (drop (CipherBlockLen * i) c)) CipherBlockLen
       (replicate CipherBlockLen 0) \<Longrightarrow>
   fst (Decrypt_loop s1 c q is m tr1) = fst (Decrypt_loop s2 c q is m tr2)"
proof (induction "is" arbitrary: m tr1 tr2)
  case Nil
  then show ?case by simp
next
  case (Cons i "is")
  let ?c0 = "take CipherBlockLen (drop ((i - 1) * CipherBlockLen) c)"
  let ?c1 = "take CipherBlockLen (drop (CipherBlockLen * i) c)"
  have rf: "race_free q ?c0 ?c1 CipherBlockLen (replicate CipherBlockLen 0)"
    using Cons.prems by simp
  obtain r1 t1 where r1: "decryptBlock_run (s1 i) ?c0 ?c1 q = (r1, t1)"
    by (cases "decryptBlock_run (s1 i) ?c0 ?c1 q")
  obtain r2 t2 where r2: "decryptBlock_run (s2 i) ?c0 ?c1 q = (r2, t2)"
    by (cases "decryptBlock_run (s2 i) ?c0 ?c1 q")
  have eq: "r1 = r2"
    using decryptBlock_run_race_free [OF rf, of "s1 i" "s2 i"] r1 r2 by simp
  obtain mi e where r: "r2 = (mi, e)" by (cases r2)
  show ?case
  proof (cases e)
    case None
    have "fst (Decrypt_loop s1 c q is (m @ mi) (tr1 @ t1)) =
          fst (Decrypt_loop s2 c q is (m @ mi) (tr2 @ t2))"
      using Cons.prems by (intro Cons.IH) simp
    then show ?thesis using r1 r2 eq r None by (simp add: Let_def)
  next
    case (Some err)
    then show ?thesis using r1 r2 eq r by (simp add: Let_def)
  qed
qed

lemma Decrypt_race_free:
  assumes "race_free_blocks q c"
  shows "Decrypt s1 c q = Decrypt s2 c q"
proof -
  have "fst (Decrypt_loop s1 c q [1..<length c div CipherBlockLen] [] []) =
        fst (Decrypt_loop s2 c q [1..<length c div CipherBlockLen] [] [])"
    using assms unfolding race_free_blocks_def by (rule Decrypt_loop_race_free)
  then show ?thesis by (simp add: Decrypt_def Decrypt_run_def Let_def)
qed

lemma race_free_true_oracle:
  assumes cur: "length cur = 16" and I: "length (dec cur) = 16" and prev: "length prev = 16"
  shows "n \<le> 16 \<Longrightarrow> length mi = 16 \<Longrightarrow>
         (\<And>i. n \<le> i \<Longrightarrow> i < 16 \<Longrightarrow> mi ! i = dec cur ! i XOR prev ! i) \<Longrightarrow>
         (n = 16 \<Longrightarrow> rightmost_unambiguous (BlockXOR (dec cur) prev)) \<Longrightarrow>
         race_free (testOracle_Do dec) prev cur n mi"
proof (induction n arbitrary: mi)
  case 0
  then show ?case by simp
next
  case (Suc p)
  let ?pad = "(16 :: byte) - of_nat p"
  let ?g = "dec cur ! p XOR ?pad"
  let ?mi = "mi[p := ?g XOR prev ! p XOR ?pad]"
  have p: "p < 16" using Suc.prems(1) by simp
  have L: "List.map_filter (checkValuePad (testOracle_Do dec) p prev cur mi) (values_chan prev p) =
      [\<lparr>Err = None, Res = ?g\<rparr>]"
    using Suc.prems(3,4) by (intro sink_true_oracle [where dec = dec, OF p cur I prev]) simp_all
  have new: "?g XOR prev ! p XOR ?pad = dec cur ! p XOR prev ! p"
    by (simp add: xor.assoc xor.left_commute xor.commute)
  have inv: "?mi ! i = dec cur ! i XOR prev ! i" if "p \<le> i" "i < 16" for i
  proof (cases "i = p")
    case True
    then show ?thesis using p Suc.prems(2) by (simp add: new)
  next
    case False
    then show ?thesis using that Suc.prems(3) [of i] by simp
  qed
  have "race_free (testOracle_Do dec) prev cur p ?mi"
    using p Suc.prems(2) inv by (intro Suc.IH) simp_all
  then show ?case by (simp add: L CipherBlockLen_def)
qed

lemma decryptBlock_loop_found_at:
  assumes "n = Suc p" and "done_chan (sch p) q p prev cur mi = ds" and "ds \<noteq> []"
    and "\<forall>r\<in>set ds. Err r = None"
  shows "decryptBlock_loop sch prev cur q n mi tr =
     decryptBlock_loop sch prev cur q p
       (mi[p := Res (last ds) XOR prev ! p XOR ((of_nat CipherBlockLen :: byte) - of_nat p)])
       (tr @ queries_at (sch p) q p prev cur mi)"
  using assms decryptBlock_loop_Suc_found [of sch p q prev cur mi tr] by simp

lemma decryptBlock_loop_none_at:
  assumes "n = Suc p" and "done_chan (sch p) q p prev cur mi = []"
  shows "decryptBlock_loop sch prev cur q n mi tr =
     (([], Some ErrNoByteFound), tr @ queries_at (sch p) q p prev cur mi)"
  using assms decryptBlock_loop_Suc_none [of sch p q prev cur mi tr] by simp

lemma Decrypt_loop_ok:
  "\<forall>i\<in>set is. decryptBlock (sch i) (take CipherBlockLen (drop ((i - 1) * CipherBlockLen) c))
       (take CipherBlockLen (drop (CipherBlockLen * i) c)) q = (f i, None) \<Longrightarrow>
   fst (Decrypt_loop sch c q is m tr) = (m @ concat (map f is), None)"
proof (induction "is" arbitrary: m tr)
  case Nil
  then show ?case by simp
next
  case (Cons i "is")
  let ?c0 = "take CipherBlockLen (drop ((i - 1) * CipherBlockLen) c)"
  let ?c1 = "take CipherBlockLen (drop (CipherBlockLen * i) c)"
  have "decryptBlock (sch i) ?c0 ?c1 q = (f i, None)" using Cons.prems by simp
  then obtain tr' where run: "decryptBlock_run (sch i) ?c0 ?c1 q = ((f i, None), tr')"
    unfolding decryptBlock_def by (cases "decryptBlock_run (sch i) ?c0 ?c1 q") auto
  have "fst (Decrypt_loop sch c q is (m @ f i) (tr @ tr')) = ((m @ f i) @ concat (map f is), None)"
    using Cons.prems by (intro Cons.IH) simp
  then show ?case unfolding Decrypt_loop.simps Let_def run by simp
qed

subsection \<open>The racy ciphertext under the schedule without extra reads\<close>

lemma racy_block_len: "length racy_block = 16" by code_simp
lemma racy_block2_len: "length racy_block2 = 16" by code_simp

lemma racy_mi_0:
  "(replicate 16 0)[15 := Res (last [\<lparr>Err = None, Res = 1\<rparr>]) XOR test_iv ! 15 XOR
      ((of_nat CipherBlockLen :: byte) - of_nat 15)] ! 15 =
   xor_cipher test_key racy_block ! 15 XOR test_iv ! 15"
  by code_simp

lemma racy_block_sched0:
  "decryptBlock (\<lambda>p. sched0) test_iv racy_block (testOracle_Do (xor_cipher test_key)) =
     (BlockXOR (xor_cipher test_key racy_block) test_iv, None)"
proof -
  let ?q = "testOracle_Do (xor_cipher test_key)"
  let ?z = "replicate 16 (0 :: byte)"
  let ?mi = "?z[15 := Res (last [\<lparr>Err = None, Res = 1\<rparr>]) XOR test_iv ! 15 XOR
      ((of_nat CipherBlockLen :: byte) - of_nat 15)]"
  have "decryptBlock_loop (\<lambda>p. sched0) test_iv racy_block ?q 16 ?z [] =
      decryptBlock_loop (\<lambda>p. sched0) test_iv racy_block ?q 15 ?mi
        ([] @ queries_at sched0 ?q 15 test_iv racy_block ?z)"
    by (rule decryptBlock_loop_found_at [OF _ racy_done_0]) simp_all
  moreover have "fst (decryptBlock_loop (\<lambda>p. sched0) test_iv racy_block ?q 15 ?mi
        ([] @ queries_at sched0 ?q 15 test_iv racy_block ?z)) =
      (BlockXOR (xor_cipher test_key racy_block) test_iv, None)"
  proof (rule decryptBlock_loop_true_oracle [where dec = "xor_cipher test_key"])
    fix i :: nat assume "15 \<le> i" "i < 16"
    then have "i = 15" by simp
    then show "?mi ! i = xor_cipher test_key racy_block ! i XOR test_iv ! i"
      using racy_mi_0 by simp
  qed (simp_all add: racy_block_len test_iv_len)
  ultimately show ?thesis
    by (simp add: decryptBlock_def decryptBlock_run_def CipherBlockLen_def test_iv_len)
qed

lemma racy_block2_unamb:
  "rightmost_unambiguous (BlockXOR (xor_cipher test_key racy_block2) racy_block)"
  by code_simp

lemma racy_block2_any:
  "decryptBlock sch racy_block racy_block2 (testOracle_Do (xor_cipher test_key)) =
     (BlockXOR (xor_cipher test_key racy_block2) racy_block, None)"
  by (rule decryptBlock_true_oracle [where dec = "xor_cipher test_key", OF _ _ _ racy_block2_unamb])
    (simp_all add: racy_block_len racy_block2_len)

lemma racy_ciphertext_len: "length racy_ciphertext = 48" by code_simp

lemma racy_blocks:
  "take CipherBlockLen (drop ((1 - 1) * CipherBlockLen) racy_ciphertext) = test_iv"
  "take CipherBlockLen (drop (CipherBlockLen * 1) racy_ciphertext) = racy_block"
  "take CipherBlockLen (drop ((2 - 1) * CipherBlockLen) racy_ciphertext) = racy_block"
  "take CipherBlockLen (drop (CipherBlockLen * 2) racy_ciphertext) = racy_block2"
  by code_simp+

lemma racy_plain:
  "BlockXOR (xor_cipher test_key racy_block) test_iv @
   BlockXOR (xor_cipher test_key racy_block2) racy_block = PCKCS5Pad racy_msg"
  by code_simp

lemma racy_indices: "[1..<48 div 16] = [1, 2]" by code_simp

lemma racy_Decrypt_loop:
  "Decrypt sch racy_ciphertext q = fst (Decrypt_loop sch racy_ciphertext q [1, 2] [] [])"
  unfolding Decrypt_def Decrypt_run_def Let_def racy_ciphertext_len CipherBlockLen_def racy_indices
  by (simp del: Decrypt_loop.simps)

lemma racy_Decrypt_sched0:
  "Decrypt (\<lambda>i p. sched0) racy_ciphertext (testOracle_Do (xor_cipher test_key)) =
     (PCKCS5Pad racy_msg, None)"
proof -
  let ?q = "testOracle_Do (xor_cipher test_key)"
  let ?f = "\<lambda>i :: nat. if i = 1 then BlockXOR (xor_cipher test_key racy_block) test_iv
                        else BlockXOR (xor_cipher test_key racy_block2) racy_block"
  have b1: "decryptBlock ((\<lambda>i p. sched0) 1)
       (take CipherBlockLen (drop ((1 - 1) * CipherBlockLen) racy_ciphertext))
       (take CipherBlockLen (drop (CipherBlockLen * 1) racy_ciphertext)) ?q = (?f 1, None)"
    unfolding racy_blocks using racy_block_sched0 by simp
  have b2: "decryptBlock ((\<lambda>i p. sched0) 2)
       (take CipherBlockLen (drop ((2 - 1) * CipherBlockLen) racy_ciphertext))
       (take CipherBlockLen (drop (CipherBlockLen * 2) racy_ciphertext)) ?q = (?f 2, None)"
    unfolding racy_blocks using racy_block2_any [of "\<lambda>p. sched0"] by simp
  have "\<forall>i\<in>set [1, 2]. decryptBlock ((\<lambda>i p. sched0) i)
       (take CipherBlockLen (drop ((i - 1) * CipherBlockLen) racy_ciphertext))
       (take CipherBlockLen (drop (CipherBlockLen * i) racy_ciphertext)) ?q = (?f i, None)"
    using b1 b2 by simp
  then have "fst (Decrypt_loop (\<lambda>i p. sched0) racy_ciphertext ?q [1, 2] [] []) =
      ([] @ concat (map ?f [1, 2]), None)"
    by (rule Decrypt_loop_ok)
  then show ?thesis
    unfolding racy_Decrypt_loop by (simp add: racy_plain)
qed

subsection \<open>The racy ciphertext under the racing schedule\<close>

lemma racy_mi1_eq:
  "(replicate 16 0)[15 := Res (last [\<lparr>Err = None, Res = 1\<rparr>, \<lparr>Err = None, Res = 2\<rparr>]) XOR
        test_iv ! 15 XOR ((of_nat CipherBlockLen :: byte) - of_nat 15)] = racy_mi1"
  by code_simp

lemma racy_mi2_eq:
  "racy_mi1[14 := Res (last [\<lparr>Err = None, Res = 0\<rparr>]) XOR
        test_iv ! 14 XOR ((of_nat CipherBlockLen :: byte) - of_nat 14)] = racy_mi2"
  by code_simp

lemma racy_cv14:
  "checkValuePad (testOracle_Do (xor_cipher test_key)) 14 test_iv racy_block racy_mi1 0 =
   Some \<lparr>Err = None, Res = 0\<rparr>"
  by code_simp

lemma racy_done14:
  "done_chan sched0 (testOracle_Do (xor_cipher test_key)) 14 test_iv racy_block racy_mi1 =
   [\<lparr>Err = None, Res = 0\<rparr>]"
proof -
  obtain rest where v: "values_chan test_iv 14 = 0 # rest"
    using values_chan_inner_head [of 14 test_iv] by auto
  show ?thesis
    unfolding done_chan_def guesses_read_def v
    by (simp add: sched0_def MaxGoroutines_def racy_cv14)
qed

lemma racy_last13:
  "xor_cipher test_key racy_block ! 15 XOR
     ((16 - of_nat 13) XOR racy_mi2 ! 15 XOR test_iv ! 15) = 0"
  by code_simp

lemma pad_invalid_last_zero: "length m = 16 \<Longrightarrow> m ! 15 = 0 \<Longrightarrow> \<not> pad_valid m"
  by (simp add: pad_valid16)

lemma racy_done13:
  "done_chan s (testOracle_Do (xor_cipher test_key)) 13 test_iv racy_block racy_mi2 = []"
proof (rule done_chan_all_rejected, rule ballI)
  fix g
  have I: "length (xor_cipher test_key racy_block) = 16" by (simp add: racy_block_len)
  have "BlockXOR (xor_cipher test_key racy_block) (buildPad 13 g test_iv racy_mi2) ! 15 =
        xor_cipher test_key racy_block ! 15 XOR
          ((16 - of_nat 13) XOR racy_mi2 ! 15 XOR test_iv ! 15)"
    using probe_nth [of 15 13 "xor_cipher test_key racy_block" g test_iv racy_mi2] I by simp
  also have "\<dots> = 0" by (rule racy_last13)
  finally have "\<not> pad_valid (BlockXOR (xor_cipher test_key racy_block) (buildPad 13 g test_iv racy_mi2))"
    using I by (intro pad_invalid_last_zero) simp_all
  then show "checkValuePad (testOracle_Do (xor_cipher test_key)) 13 test_iv racy_block racy_mi2 g = None"
    by (simp add: checkValuePad_testOracle [where dec = "xor_cipher test_key", OF racy_block_len I])
qed

lemma racy_block_race:
  "decryptBlock sched_race15 test_iv racy_block (testOracle_Do (xor_cipher test_key)) =
     ([], Some ErrNoByteFound)"
proof -
  let ?q = "testOracle_Do (xor_cipher test_key)"
  let ?z = "replicate 16 (0 :: byte)"
  let ?d15 = "[\<lparr>Err = None, Res = 1 :: byte\<rparr>, \<lparr>Err = None, Res = 2\<rparr>]"
  let ?d14 = "[\<lparr>Err = None, Res = 0 :: byte\<rparr>]"
  have s: "sched_race15 15 = sched_race" "sched_race15 14 = sched0"
    by (simp_all add: sched_race15_def)
  have d15: "done_chan (sched_race15 15) ?q 15 test_iv racy_block ?z = ?d15"
    unfolding s by (rule racy_done_race)
  have d14: "done_chan (sched_race15 14) ?q 14 test_iv racy_block racy_mi1 = ?d14"
    unfolding s by (rule racy_done14)
  have 1: "decryptBlock_loop sched_race15 test_iv racy_block ?q 16 ?z [] =
      decryptBlock_loop sched_race15 test_iv racy_block ?q 15 racy_mi1
        ([] @ queries_at (sched_race15 15) ?q 15 test_iv racy_block ?z)"
    using decryptBlock_loop_found_at [where sch = sched_race15 and n = 16 and p = 15, OF _ d15, where tr = "[]"]
    unfolding racy_mi1_eq by simp
  have 2: "decryptBlock_loop sched_race15 test_iv racy_block ?q 15 racy_mi1 tr =
      decryptBlock_loop sched_race15 test_iv racy_block ?q 14 racy_mi2
        (tr @ queries_at (sched_race15 14) ?q 14 test_iv racy_block racy_mi1)" for tr
    using decryptBlock_loop_found_at [where sch = sched_race15 and n = 15 and p = 14, OF _ d14, where tr = tr]
    unfolding racy_mi2_eq by simp
  have 3: "decryptBlock_loop sched_race15 test_iv racy_block ?q 14 racy_mi2 tr =
      (([], Some ErrNoByteFound), tr @ queries_at (sched_race15 13) ?q 13 test_iv racy_block racy_mi2)"
    for tr
    by (rule decryptBlock_loop_none_at [where sch = sched_race15 and p = 13, OF _ racy_done13]) simp
  have "fst (decryptBlock_loop sched_race15 test_iv racy_block ?q 16 ?z []) =
      ([], Some ErrNoByteFound)"
    unfolding 1 2 3 by simp
  then show ?thesis
    by (simp add: decryptBlock_def decryptBlock_run_def CipherBlockLen_def test_iv_len)
qed

lemma racy_Decrypt_race:
  "Decrypt (\<lambda>i. sched_race15) racy_ciphertext (testOracle_Do (xor_cipher test_key)) =
     ([], Some ErrNoByteFound)"
proof -
  let ?q = "testOracle_Do (xor_cipher test_key)"
  have "fst (decryptBlock_run ((\<lambda>i. sched_race15) 1)
          (take CipherBlockLen (drop ((1 - 1) * CipherBlockLen) racy_ciphertext))
          (take CipherBlockLen (drop (CipherBlockLen * 1) racy_ciphertext)) ?q) =
        ([], Some ErrNoByteFound)"
    unfolding racy_blocks using racy_block_race by (simp add: decryptBlock_def)
  then have "fst (Decrypt_loop (\<lambda>i. sched_race15) racy_ciphertext ?q (1 # [2]) [] []) =
      ([], Some ErrNoByteFound)"
    by (rule Decrypt_block_error)
  then show ?thesis unfolding racy_Decrypt_loop .
qed


lemma hello_indices: "[1..<length (test_iv @ hello_block) div CipherBlockLen] = [1]"
  by code_simp

lemma hello_blocks:
  "take CipherBlockLen (drop ((1 - 1) * CipherBlockLen) (test_iv @ hello_block)) = test_iv"
  "take CipherBlockLen (drop (CipherBlockLen * 1) (test_iv @ hello_block)) = hello_block"
  by code_simp+

lemma hello_race_free:
  "race_free_blocks (testOracle_Do (xor_cipher test_key)) (test_iv @ hello_block)"
proof -
  have u: "rightmost_unambiguous (BlockXOR (xor_cipher test_key hello_block) test_iv)"
    unfolding hello_block_plain by (rule unamb_hello)
  have "race_free (testOracle_Do (xor_cipher test_key)) test_iv hello_block 16 (replicate 16 0)"
    by (rule race_free_true_oracle [where dec = "xor_cipher test_key"])
      (simp_all add: hello_block_len test_iv_len u)
  then have "race_free (testOracle_Do (xor_cipher test_key))
      (take CipherBlockLen (drop ((1 - 1) * CipherBlockLen) (test_iv @ hello_block)))
      (take CipherBlockLen (drop (CipherBlockLen * 1) (test_iv @ hello_block)))
      CipherBlockLen (replicate CipherBlockLen 0)"
    unfolding hello_blocks by (simp add: CipherBlockLen_def)
  then show ?thesis
    unfolding race_free_blocks_def hello_indices by simp
qed


section \<open>Failure on an excluded right-most byte, for any cipher\<close>

text \<open>
  The failure at the excluded guess does not depend on the cipher behind the oracle.
  \<^verbatim>\<open>Encrypt\<close> starts from the all-zero block: if the cipher decrypts that block to something
  whose last byte is \<open>01\<close>, with no longer pad in it, every call fails.  \<^verbatim>\<open>Decrypt\<close> fails on
  every CBC ciphertext whose first padded plaintext block has that shape.
\<close>

lemma Encrypt_excluded:
  assumes "length (dec (replicate 16 0)) = 16"
    and "rightmost_excluded (dec (replicate 16 0))"
  shows "Encrypt sch P (testOracle_Do dec) = ([], Some ErrNoByteFound)"
proof -
  let ?z = "replicate 16 (0 :: byte)"
  obtain n where n: "length (PCKCS5Pad P) div 16 = Suc n"
    by (simp add: length_PCKCS5Pad)
  have x: "rightmost_excluded (BlockXOR (dec ?z) ?z)"
    using assms by (simp add: BlockXOR_zero)
  have d: "decryptBlock (sch n) ?z ?z (testOracle_Do dec) = ([], Some ErrNoByteFound)"
    by (rule decryptBlock_excluded [where dec = dec, OF _ assms(1) _ x]) simp_all
  show ?thesis
    unfolding Encrypt_def Let_def CipherBlockLen_def n rev_upt_Suc
    by (rule Encrypt_block_error [where sch = sch and i = n, OF d])
qed

lemma Decrypt_excluded:
  assumes bc: "block_cipher enc dec" and iv: "length iv = 16"
    and X: "rightmost_excluded (take 16 (PCKCS5Pad P))"
  shows "Decrypt sch (fst (CBCEncrypt enc iv P)) (testOracle_Do dec) = ([], Some ErrNoByteFound)"
proof -
  let ?m = "PCKCS5Pad P"
  let ?q = "testOracle_Do dec"
  let ?bl = "iv # cbc_chain enc (blocks16 ?m) iv"
  have ne: "iv \<noteq> []" using iv by auto
  have el: "\<forall>x. length x = 16 \<longrightarrow> length (enc x) = 16"
    and dl: "\<forall>x. length x = 16 \<longrightarrow> length (dec x) = 16"
    using bc unfolding block_cipher_def by blast+
  have bl: "\<forall>b\<in>set ?bl. length b = 16"
    using cbc_chain_blocks [OF el blocks16_lengths, of ?m iv] iv by simp
  have n: "2 \<le> length ?bl" by (simp add: length_PCKCS5Pad)
  have ct: "fst (CBCEncrypt enc iv P) = concat ?bl" by (simp add: CBCEncrypt_blocks [OF ne])
  have lc: "length (concat ?bl) = 16 * length ?bl" by (rule length_concat16 [OF bl])
  have len: "32 \<le> length (concat ?bl)" "length (concat ?bl) mod 16 = 0"
    unfolding lc using n by simp_all
  have c0: "take CipherBlockLen (drop ((1 - 1) * CipherBlockLen) (concat ?bl)) = ?bl ! 0"
    using blk_concat [OF bl, of 0] by (simp add: CipherBlockLen_def)
  have c1: "take CipherBlockLen (drop (CipherBlockLen * 1) (concat ?bl)) = ?bl ! 1"
    using blk_concat [OF bl, of 1] n by (simp add: CipherBlockLen_def)
  have l1: "length (?bl ! 1) = 16" using bl n by (metis nth_mem One_nat_def Suc_1 Suc_le_lessD)
  have pl: "cbc_plain dec ?bl = blocks16 ?m"
    by (rule cbc_plain_chain [OF bc iv blocks16_lengths])
  have "BlockXOR (dec (?bl ! 1)) (?bl ! (1 - 1)) = cbc_plain dec ?bl ! 0"
    unfolding cbc_plain_map using n by (simp add: upt_conv_Cons del: upt_Suc)
  also have "\<dots> = take 16 ?m"
    unfolding pl by (simp add: blocks16_def length_PCKCS5Pad upt_conv_Cons del: upt_Suc)
  finally have x: "rightmost_excluded (BlockXOR (dec (?bl ! 1)) iv)" using X by simp
  have ld: "length (dec (?bl ! 1)) = 16" using dl l1 by blast
  have "decryptBlock (sch 1) iv (?bl ! 1) ?q = ([], Some ErrNoByteFound)"
    by (rule decryptBlock_excluded [where dec = dec, OF l1 ld iv x])
  then have "fst (decryptBlock_run (sch 1)
          (take CipherBlockLen (drop ((1 - 1) * CipherBlockLen) (concat ?bl)))
          (take CipherBlockLen (drop (CipherBlockLen * 1) (concat ?bl))) ?q) =
        ([], Some ErrNoByteFound)"
    unfolding c0 c1 by (simp add: decryptBlock_def)
  then have "fst (Decrypt_loop sch (concat ?bl) ?q (1 # [2..<length (concat ?bl) div 16]) [] []) =
      ([], Some ErrNoByteFound)"
    by (rule Decrypt_block_error)
  then show ?thesis unfolding ct Decrypt_first_block [OF len] .
qed


section \<open>The claims\<close>

text \<open>
  Claim C1, as the code has it. For every block cipher, every 16-byte IV and every plaintext
  \<open>P\<close> such that each 16-byte block of \<open>PKCS_Pad(P)\<close> is right-most unambiguous (its last byte
  is not \<open>01\<close>, and no \<open>k\<close> from 2 to 16 other than its last byte has the \<open>k - 1\<close> bytes
  before the last byte all equal to \<open>k\<close>), \<^verbatim>\<open>Decrypt\<close> of \<open>CBC_Encrypt(IV, key, P)\<close> with the
  oracle that wraps the true decryptor returns, under every schedule of the workers,
  exactly \<open>PKCS_Pad(P)\<close> and no error.
\<close>

theorem Decrypt_CBCEncrypt_sound:
  assumes "block_cipher enc dec" and "length iv = CipherBlockLen"
    and "blocks_unambiguous (PCKCS5Pad P)"
  shows "snd (CBCEncrypt enc iv P) = None \<and>
         Decrypt sch (fst (CBCEncrypt enc iv P)) (testOracle_Do dec) = (PCKCS5Pad P, None)"
proof -
  have iv: "length iv = 16" using assms(2) by (simp add: CipherBlockLen_def)
  then have "iv \<noteq> []" by auto
  then have "snd (CBCEncrypt enc iv P) = None" by (simp add: CBCEncrypt_def Let_def)
  then show ?thesis using Decrypt_CBCEncrypt [OF assms(1) iv assms(3)] by simp
qed

theorem Decrypt_CBCEncrypt_sound_witness:
  "block_cipher (xor_cipher test_key) (xor_cipher test_key) \<and>
   length test_iv = CipherBlockLen \<and>
   blocks_unambiguous (PCKCS5Pad la_mancha) \<and>
   snd (CBCEncrypt (xor_cipher test_key) test_iv la_mancha) = None \<and>
   Decrypt (\<lambda>i p. sched0) (fst (CBCEncrypt (xor_cipher test_key) test_iv la_mancha))
     (testOracle_Do (xor_cipher test_key)) = (PCKCS5Pad la_mancha, None)"
proof -
  have h1: "block_cipher (xor_cipher test_key) (xor_cipher test_key)"
    by (rule block_cipher_xor) (rule test_key_len)
  have h2: "length test_iv = CipherBlockLen" by code_simp
  have h3: "blocks_unambiguous (PCKCS5Pad la_mancha)" by code_simp
  show ?thesis
    using h1 h2 h3 Decrypt_CBCEncrypt_sound [OF h1 h2 h3, of "\<lambda>i p. sched0"] by blast
qed

text \<open>
  The claim as stated fails: the padding of a 15-byte message is the single byte \<open>01\<close>, the
  guess that yields it at the right-most position is the excluded one, and \<^verbatim>\<open>Decrypt\<close>
  returns the error "no byte found".
\<close>

theorem Decrypt_soundness_counterexample:
  "block_cipher (xor_cipher test_key) (xor_cipher test_key) \<and>
   length test_iv = CipherBlockLen \<and>
   snd (CBCEncrypt (xor_cipher test_key) test_iv hello_world15) = None \<and>
   Decrypt (\<lambda>i p. sched0) (fst (CBCEncrypt (xor_cipher test_key) test_iv hello_world15))
     (testOracle_Do (xor_cipher test_key)) = ([], Some ErrNoByteFound)"
proof -
  let ?q = "testOracle_Do (xor_cipher test_key)"
  let ?c = "test_iv @ hello15_block"
  have h1: "block_cipher (xor_cipher test_key) (xor_cipher test_key)"
    by (rule block_cipher_xor) (rule test_key_len)
  have h2: "length test_iv = CipherBlockLen" by code_simp
  have h3: "snd (CBCEncrypt (xor_cipher test_key) test_iv hello_world15) = None" by code_simp
  have x: "rightmost_excluded (BlockXOR (xor_cipher test_key hello15_block) test_iv)"
    unfolding hello15_block_plain by (rule excl_hello15)
  have d: "decryptBlock sch test_iv hello15_block ?q = ([], Some ErrNoByteFound)" for sch
    using decryptBlock_excluded [where dec = "xor_cipher test_key", OF hello15_block_len _ test_iv_len x]
    by (simp add: hello15_block_len)
  have len: "32 \<le> length ?c" "length ?c mod 16 = 0"
    by (simp_all add: test_iv_len hello15_block_len)
  have c0: "take CipherBlockLen (drop ((1 - 1) * CipherBlockLen) ?c) = test_iv"
    by (simp add: CipherBlockLen_def test_iv_len)
  have c1: "take CipherBlockLen (drop (CipherBlockLen * 1) ?c) = hello15_block"
    by (simp add: CipherBlockLen_def test_iv_len hello15_block_len)
  have "fst (decryptBlock_run sched0' (take CipherBlockLen (drop ((1 - 1) * CipherBlockLen) ?c))
          (take CipherBlockLen (drop (CipherBlockLen * 1) ?c)) ?q) = ([], Some ErrNoByteFound)"
    for sched0'
    unfolding c0 c1 using d [of sched0'] by (simp add: decryptBlock_def)
  then have "fst (Decrypt_loop (\<lambda>i p. sched0) ?c ?q (1 # [2..<length ?c div 16]) [] []) =
      ([], Some ErrNoByteFound)"
    by (rule Decrypt_block_error)
  then have "Decrypt (\<lambda>i p. sched0) ?c ?q = ([], Some ErrNoByteFound)"
    unfolding Decrypt_first_block [OF len] .
  then show ?thesis using h1 h2 h3 unfolding hello15_ciphertext by blast
qed

text \<open>
  Claim C2, as the code has it. For every block cipher and every plaintext \<open>P\<close> such that
  each block the attack hands to the engine as \<open>current\<close> (the zero block, then each block
  it produces) has a right-most unambiguous intermediate block \<open>dec current\<close>:
  \<^verbatim>\<open>Encrypt\<close> returns, under every schedule, a ciphertext and no error, and the reference
  CBC decryptor (which strips the padding) turns that ciphertext into exactly \<open>P\<close>.
\<close>

theorem Encrypt_sound:
  assumes "block_cipher enc dec"
    and "forge_unambiguous dec (PCKCS5Pad P)
           (rev [0..<length (PCKCS5Pad P) div CipherBlockLen]) (replicate CipherBlockLen 0)"
  shows "\<exists>c. Encrypt sch P (testOracle_Do dec) = (c, None) \<and> CBCDecrypt dec c = (P, None)"
proof -
  have dl: "\<forall>x. length x = 16 \<longrightarrow> length (dec x) = 16"
    using assms(1) unfolding block_cipher_def by blast
  show ?thesis
    using assms(2) unfolding CipherBlockLen_def by (rule Encrypt_true_oracle [OF dl])
qed

theorem Encrypt_sound_witness:
  "block_cipher (xor_cipher test_key) (xor_cipher test_key) \<and>
   forge_unambiguous (xor_cipher test_key) (PCKCS5Pad la_mancha)
     (rev [0..<length (PCKCS5Pad la_mancha) div CipherBlockLen]) (replicate CipherBlockLen 0) \<and>
   snd (Encrypt (\<lambda>i p. sched0) la_mancha (testOracle_Do (xor_cipher test_key))) = None \<and>
   CBCDecrypt (xor_cipher test_key)
     (fst (Encrypt (\<lambda>i p. sched0) la_mancha (testOracle_Do (xor_cipher test_key)))) =
     (la_mancha, None)"
proof -
  have h1: "block_cipher (xor_cipher test_key) (xor_cipher test_key)"
    by (rule block_cipher_xor) (rule test_key_len)
  have h2: "forge_unambiguous (xor_cipher test_key) (PCKCS5Pad la_mancha)
     (rev [0..<length (PCKCS5Pad la_mancha) div CipherBlockLen]) (replicate CipherBlockLen 0)"
    by code_simp
  obtain c where "Encrypt (\<lambda>i p. sched0) la_mancha (testOracle_Do (xor_cipher test_key)) = (c, None)"
    "CBCDecrypt (xor_cipher test_key) c = (la_mancha, None)"
    using Encrypt_sound [OF h1 h2, of "\<lambda>i p. sched0"] by blast
  then show ?thesis using h1 h2 by simp
qed

text \<open>
  The claim as stated fails: under a key for which the zero block decrypts to a block
  ending in \<open>01\<close>, the first block recovery of \<^verbatim>\<open>Encrypt\<close> finds no byte and the attack
  returns the error "no byte found" instead of a ciphertext.
\<close>

theorem Encrypt_soundness_counterexample:
  "block_cipher (xor_cipher weak_key) (xor_cipher weak_key) \<and>
   Encrypt (\<lambda>i p. sched0) hello_world (testOracle_Do (xor_cipher weak_key)) =
     ([], Some ErrNoByteFound)"
proof -
  let ?z = "replicate 16 (0 :: byte)"
  have h1: "block_cipher (xor_cipher weak_key) (xor_cipher weak_key)"
    by (rule block_cipher_xor) (rule weak_key_len)
  have d: "decryptBlock sched0' ?z ?z (testOracle_Do (xor_cipher weak_key)) = ([], Some ErrNoByteFound)"
    for sched0'
    by (rule decryptBlock_excluded [where dec = "xor_cipher weak_key", OF _ _ _ weak_key_excluded])
      simp_all
  have n: "rev [0..<length (PCKCS5Pad hello_world) div CipherBlockLen] = [0]" by code_simp
  have "Encrypt_loop (\<lambda>i p. sched0) (PCKCS5Pad hello_world) (testOracle_Do (xor_cipher weak_key))
          (0 # []) ?z ?z ?z = ([], Some ErrNoByteFound)"
    by (rule Encrypt_block_error [where sch = "\<lambda>i p. sched0" and i = 0, OF d])
  then show ?thesis using h1 unfolding Encrypt_def Let_def n by (simp add: CipherBlockLen_def)
qed

text \<open>
  Claim C3, as the code has it. For adjacent 16-byte blocks \<open>prev = C0\<close> and \<open>cur = C1\<close> and an
  oracle wrapping the true decryptor, the output \<open>m\<close> of the byte-recovery engine is the
  plaintext block: \<open>m[j] = I(C1)[j] XOR C0[j]\<close> for every \<open>j\<close>, that is
  \<open>I(C1) = m XOR C0\<close>; each byte \<open>M[p]\<close> the engine confirms is \<open>I(C1)[p] XOR C0[p]\<close>.
  This holds under every schedule when the plaintext block is right-most unambiguous.
\<close>

theorem decryptBlock_recovers_plaintext:
  assumes "length prev = CipherBlockLen" and "length cur = CipherBlockLen"
    and "length (dec cur) = CipherBlockLen"
    and "rightmost_unambiguous (BlockXOR (dec cur) prev)"
  shows "\<exists>m. decryptBlock sch prev cur (testOracle_Do dec) = (m, None) \<and>
             length m = CipherBlockLen \<and>
             (\<forall>j<CipherBlockLen. m ! j = dec cur ! j XOR prev ! j \<and> dec cur ! j = m ! j XOR prev ! j)"
proof -
  have l: "length cur = 16" "length (dec cur) = 16" "length prev = 16"
    using assms by (simp_all add: CipherBlockLen_def)
  have "decryptBlock sch prev cur (testOracle_Do dec) = (BlockXOR (dec cur) prev, None)"
    using l assms(4) by (rule decryptBlock_true_oracle)
  moreover have "BlockXOR (dec cur) prev ! j = dec cur ! j XOR prev ! j" if "j < 16" for j
    using that l by (simp add: BlockXOR_nth16)
  moreover have "dec cur ! j = (dec cur ! j XOR prev ! j) XOR prev ! j" for j
    by (simp add: xor.assoc)
  ultimately show ?thesis using l by (simp add: CipherBlockLen_def)
qed

theorem decryptBlock_recovers_plaintext_witness:
  "length test_iv = CipherBlockLen \<and> length hello_block = CipherBlockLen \<and>
   length (xor_cipher test_key hello_block) = CipherBlockLen \<and>
   rightmost_unambiguous (BlockXOR (xor_cipher test_key hello_block) test_iv) \<and>
   snd (decryptBlock (\<lambda>p. sched0) test_iv hello_block (testOracle_Do (xor_cipher test_key))) = None \<and>
   fst (decryptBlock (\<lambda>p. sched0) test_iv hello_block (testOracle_Do (xor_cipher test_key))) ! 0 = 0x48"
proof -
  have h1: "length test_iv = CipherBlockLen" by code_simp
  have h2: "length hello_block = CipherBlockLen" by code_simp
  have h3: "length (xor_cipher test_key hello_block) = CipherBlockLen" by code_simp
  have h4: "rightmost_unambiguous (BlockXOR (xor_cipher test_key hello_block) test_iv)"
    by code_simp
  have v: "xor_cipher test_key hello_block ! 0 XOR test_iv ! 0 = 0x48" by code_simp
  have z: "0 < CipherBlockLen" by (simp add: CipherBlockLen_def)
  obtain m where m: "decryptBlock (\<lambda>p. sched0) test_iv hello_block (testOracle_Do (xor_cipher test_key)) = (m, None)"
    and all: "\<forall>j<CipherBlockLen. m ! j = xor_cipher test_key hello_block ! j XOR test_iv ! j \<and>
        xor_cipher test_key hello_block ! j = m ! j XOR test_iv ! j"
    using decryptBlock_recovers_plaintext [where dec = "xor_cipher test_key" and sch = "\<lambda>p. sched0",
        OF h1 h2 h3 h4] by blast
  have "m ! 0 = 0x48" using all z v by metis
  then show ?thesis unfolding m using h1 h2 h3 h4 by simp
qed

text \<open>
  The claim as stated fails: for the block of \<^verbatim>\<open>"Hello world"\<close> the output is the padded
  plaintext, which differs from the intermediate block \<open>I(C1)\<close> in byte 0; and for the block
  of a 15-byte message (padding \<open>01\<close>) there is no output, the engine returns the error "no
  byte found".
\<close>

theorem decryptBlock_output_counterexample:
  "decryptBlock (\<lambda>p. sched0) test_iv hello_block (testOracle_Do (xor_cipher test_key)) =
     (PCKCS5Pad hello_world, None) \<and>
   PCKCS5Pad hello_world ! 0 \<noteq> xor_cipher test_key hello_block ! 0 \<and>
   decryptBlock (\<lambda>p. sched0) test_iv hello15_block (testOracle_Do (xor_cipher test_key)) =
     ([], Some ErrNoByteFound)"
proof -
  have u: "rightmost_unambiguous (BlockXOR (xor_cipher test_key hello_block) test_iv)"
    unfolding hello_block_plain by (rule unamb_hello)
  have 1: "decryptBlock (\<lambda>p. sched0) test_iv hello_block (testOracle_Do (xor_cipher test_key)) =
     (PCKCS5Pad hello_world, None)"
    using decryptBlock_true_oracle [where dec = "xor_cipher test_key", OF hello_block_len _ test_iv_len u]
    by (simp add: hello_block_len hello_block_plain)
  have 2: "PCKCS5Pad hello_world ! 0 \<noteq> xor_cipher test_key hello_block ! 0" by code_simp
  have x: "rightmost_excluded (BlockXOR (xor_cipher test_key hello15_block) test_iv)"
    unfolding hello15_block_plain by (rule excl_hello15)
  have 3: "decryptBlock (\<lambda>p. sched0) test_iv hello15_block (testOracle_Do (xor_cipher test_key)) =
     ([], Some ErrNoByteFound)"
    using decryptBlock_excluded [where dec = "xor_cipher test_key", OF hello15_block_len _ test_iv_len x]
    by (simp add: hello15_block_len)
  show ?thesis using 1 2 3 by blast
qed

text \<open>
  Claim C4, as the code has it. The engine has no disambiguation step. At every position
  \<open>p\<close>, the right-most included, each query made before the byte is confirmed is the
  pad candidate of a guess of the guess space followed by \<open>C1\<close>, and leaves the bytes of
  \<open>C0\<close> left of \<open>p\<close> as they are (at \<open>p = B - 1\<close>, \<open>C0[B - 2]\<close> is never perturbed); and
  when the sink holds one or more successes and no error, the byte is confirmed from the
  success written last.
\<close>

theorem last_write_wins:
  assumes "p < CipherBlockLen"
  shows "(\<forall>x\<in>set (queries_at (sch p) q p prev cur mi).
            guess x \<in> set (values_chan prev p) \<and>
            sent x = buildPad p (guess x) prev mi @ cur \<and>
            (\<forall>i<p. sent x ! i = prev ! i)) \<and>
         (done_chan (sch p) q p prev cur mi \<noteq> [] \<and>
          (\<forall>r\<in>set (done_chan (sch p) q p prev cur mi). Err r = None) \<longrightarrow>
            decryptBlock_loop sch prev cur q (Suc p) mi tr =
              decryptBlock_loop sch prev cur q p
                (mi[p := Res (last (done_chan (sch p) q p prev cur mi)) XOR prev ! p XOR
                         of_nat (CipherBlockLen - p)])
                (tr @ queries_at (sch p) q p prev cur mi))"
proof -
  have p: "p < 16" using assms by (simp add: CipherBlockLen_def)
  have pad: "(of_nat (CipherBlockLen - p) :: byte) = of_nat CipherBlockLen - of_nat p"
    using p by (simp add: CipherBlockLen_def of_nat_diff)
  show ?thesis
    unfolding pad using queries_at_untouched [OF _ p] decryptBlock_loop_Suc_found by blast
qed

theorem last_write_wins_witness:
  "(15 :: nat) < CipherBlockLen \<and>
   \<lparr>pos = 15, guess = 2, sent = oracle_query 15 test_iv racy_block (replicate 16 0) 2\<rparr>
     \<in> set (queries_at sched_race (testOracle_Do (xor_cipher test_key)) 15 test_iv racy_block
              (replicate 16 0)) \<and>
   oracle_query 15 test_iv racy_block (replicate 16 0) 2 ! 14 = test_iv ! 14 \<and>
   done_chan sched_race (testOracle_Do (xor_cipher test_key)) 15 test_iv racy_block
     (replicate 16 0) = [\<lparr>Err = None, Res = 1\<rparr>, \<lparr>Err = None, Res = 2\<rparr>] \<and>
   decryptBlock_loop (\<lambda>p. sched_race) test_iv racy_block (testOracle_Do (xor_cipher test_key))
       (Suc 15) (replicate 16 0) [] =
     decryptBlock_loop (\<lambda>p. sched_race) test_iv racy_block (testOracle_Do (xor_cipher test_key))
       15 ((replicate 16 0)[15 := 2 XOR test_iv ! 15 XOR of_nat (CipherBlockLen - 15)])
       (queries_at sched_race (testOracle_Do (xor_cipher test_key)) 15 test_iv racy_block
          (replicate 16 0))"
proof -
  let ?q = "testOracle_Do (xor_cipher test_key)"
  let ?z = "replicate 16 (0 :: byte)"
  let ?x = "\<lparr>pos = 15, guess = 2 :: byte, sent = oracle_query 15 test_iv racy_block ?z 2\<rparr>"
  have h: "(15 :: nat) < CipherBlockLen" by (simp add: CipherBlockLen_def)
  note lw = last_write_wins [OF h, where sch = "\<lambda>p. sched_race" and q = ?q and prev = test_iv
      and cur = racy_block and mi = ?z and tr = "[]"]
  have m: "?x \<in> set (queries_at sched_race ?q 15 test_iv racy_block ?z)"
    by (simp add: queries_at_def racy_read_race)
  have "\<forall>i<15. sent ?x ! i = test_iv ! i" using lw [THEN conjunct1] m by blast
  then have s: "oracle_query 15 test_iv racy_block ?z 2 ! 14 = test_iv ! 14" by simp
  have d: "done_chan sched_race ?q 15 test_iv racy_block ?z \<noteq> [] \<and>
      (\<forall>r\<in>set (done_chan sched_race ?q 15 test_iv racy_block ?z). Err r = None)"
    by (simp add: racy_done_race)
  have "decryptBlock_loop (\<lambda>p. sched_race) test_iv racy_block ?q (Suc 15) ?z [] =
     decryptBlock_loop (\<lambda>p. sched_race) test_iv racy_block ?q 15
       (?z[15 := Res (last (done_chan sched_race ?q 15 test_iv racy_block ?z)) XOR test_iv ! 15 XOR
                of_nat (CipherBlockLen - 15)])
       ([] @ queries_at sched_race ?q 15 test_iv racy_block ?z)"
    using lw [THEN conjunct2] d by blast
  then show ?thesis using h m s by (simp add: racy_done_race)
qed

text \<open>
  The claim as stated fails: in the recovery of the first block of \<^verbatim>\<open>"Hello world!!!\\x02l"\<close>
  the guesses 1 and 2 are both reported valid at position 15, the three queries made there
  all carry \<open>C0[14]\<close> unchanged, and the engine goes on to position 14 with the byte
  confirmed from the guess 2, the success written last.
\<close>

theorem disambiguation_counterexample:
  "done_chan sched_race (testOracle_Do (xor_cipher test_key)) 15 test_iv racy_block
     (replicate 16 0) = [\<lparr>Err = None, Res = 1\<rparr>, \<lparr>Err = None, Res = 2\<rparr>] \<and>
   map guess (queries_at sched_race (testOracle_Do (xor_cipher test_key)) 15 test_iv racy_block
     (replicate 16 0)) = [0, 1, 2] \<and>
   map (\<lambda>x. sent x ! 14) (queries_at sched_race (testOracle_Do (xor_cipher test_key)) 15 test_iv
     racy_block (replicate 16 0)) = [test_iv ! 14, test_iv ! 14, test_iv ! 14] \<and>
   decryptBlock_loop (\<lambda>p. sched_race) test_iv racy_block (testOracle_Do (xor_cipher test_key))
       (Suc 15) (replicate 16 0) [] =
     decryptBlock_loop (\<lambda>p. sched_race) test_iv racy_block (testOracle_Do (xor_cipher test_key))
       15 ((replicate 16 0)[15 := 2 XOR test_iv ! 15 XOR 1])
       (queries_at sched_race (testOracle_Do (xor_cipher test_key)) 15 test_iv racy_block
          (replicate 16 0))"
proof -
  let ?q = "testOracle_Do (xor_cipher test_key)"
  let ?z = "replicate 16 (0 :: byte)"
  have g: "map guess (queries_at sched_race ?q 15 test_iv racy_block ?z) = [0, 1, 2]"
    by (simp add: queries_at_def racy_read_race)
  have s: "map (\<lambda>x. sent x ! 14) (queries_at sched_race ?q 15 test_iv racy_block ?z) =
      [test_iv ! 14, test_iv ! 14, test_iv ! 14]"
    by (simp add: queries_at_def racy_read_race racy_sent_14)
  have "decryptBlock_loop (\<lambda>p. sched_race) test_iv racy_block ?q (Suc 15) ?z [] =
     decryptBlock_loop (\<lambda>p. sched_race) test_iv racy_block ?q 15
       (?z[15 := Res (last (done_chan sched_race ?q 15 test_iv racy_block ?z)) XOR test_iv ! 15 XOR
                ((of_nat CipherBlockLen :: byte) - of_nat 15)])
       ([] @ queries_at sched_race ?q 15 test_iv racy_block ?z)"
    by (rule decryptBlock_loop_Suc_found) (simp_all add: racy_done_race)
  then have "decryptBlock_loop (\<lambda>p. sched_race) test_iv racy_block ?q (Suc 15) ?z [] =
     decryptBlock_loop (\<lambda>p. sched_race) test_iv racy_block ?q 15
       (?z[15 := 2 XOR test_iv ! 15 XOR 1]) (queries_at sched_race ?q 15 test_iv racy_block ?z)"
    by (simp add: racy_done_race CipherBlockLen_def)
  then show ?thesis using g s racy_done_race by blast
qed

text \<open>
  Claim C5. The pad-candidate builder returns a block of \<open>B = 16\<close> bytes, and with
  \<open>pad = B - p\<close>: right of position \<open>p\<close> the byte is \<open>pad XOR M[i] XOR C0[i]\<close>, at position
  \<open>p\<close> it is the guess \<open>g\<close>, and left of \<open>p\<close> it is \<open>C0[i]\<close>. The result is a function of
  \<open>p\<close>, \<open>g\<close>, \<open>C0\<close> and \<open>M\<close> alone.
\<close>

theorem buildPad_contract:
  assumes "p < CipherBlockLen" "length C0 = CipherBlockLen" "length M = CipherBlockLen"
  shows "length (buildPad p g C0 M) = CipherBlockLen \<and>
         (\<forall>i<CipherBlockLen. buildPad p g C0 M ! i =
            (if p < i then of_nat (CipherBlockLen - p) XOR M ! i XOR C0 ! i
             else if i = p then g
             else C0 ! i))"
proof -
  have pad: "(of_nat (16 - p) :: byte) = 16 - of_nat p"
    using assms(1) by (simp add: CipherBlockLen_def of_nat_diff)
  show ?thesis
    using assms(1) by (simp add: CipherBlockLen_def buildPad_nth pad)
qed

theorem buildPad_contract_witness:
  "(13::nat) < CipherBlockLen \<and>
   length [0, 1, 2, 3, 4, 5, 6, 7, 8, 9, 10, 11, 12, 13, 14, 15 :: byte] = CipherBlockLen \<and>
   length [0, 0, 0, 0, 0, 0, 0, 0, 0, 0, 0, 0, 0, 0, 0x41, 0x42 :: byte] = CipherBlockLen \<and>
   length (buildPad 13 0xAA [0, 1, 2, 3, 4, 5, 6, 7, 8, 9, 10, 11, 12, 13, 14, 15]
             [0, 0, 0, 0, 0, 0, 0, 0, 0, 0, 0, 0, 0, 0, 0x41, 0x42]) = CipherBlockLen \<and>
   buildPad 13 0xAA [0, 1, 2, 3, 4, 5, 6, 7, 8, 9, 10, 11, 12, 13, 14, 15]
     [0, 0, 0, 0, 0, 0, 0, 0, 0, 0, 0, 0, 0, 0, 0x41, 0x42] ! 15 = 3 XOR 0x42 XOR 15 \<and>
   buildPad 13 0xAA [0, 1, 2, 3, 4, 5, 6, 7, 8, 9, 10, 11, 12, 13, 14, 15]
     [0, 0, 0, 0, 0, 0, 0, 0, 0, 0, 0, 0, 0, 0, 0x41, 0x42] ! 13 = 0xAA \<and>
   buildPad 13 0xAA [0, 1, 2, 3, 4, 5, 6, 7, 8, 9, 10, 11, 12, 13, 14, 15]
     [0, 0, 0, 0, 0, 0, 0, 0, 0, 0, 0, 0, 0, 0, 0x41, 0x42] ! 2 = 2"
proof -
  have h: "(13::nat) < CipherBlockLen"
    "length [0, 1, 2, 3, 4, 5, 6, 7, 8, 9, 10, 11, 12, 13, 14, 15 :: byte] = CipherBlockLen"
    "length [0, 0, 0, 0, 0, 0, 0, 0, 0, 0, 0, 0, 0, 0, 0x41, 0x42 :: byte] = CipherBlockLen"
    by (simp_all add: CipherBlockLen_def)
  show ?thesis
    using h buildPad_contract [OF h, of "0xAA"]
    by (simp add: CipherBlockLen_def)
qed

text \<open>
  Claim C6, as the code has it. \<^verbatim>\<open>Decrypt\<close> rejects its input with \<open>ErrInvalidCiphertext\<close>
  before any oracle query exactly when the input is shorter than \<open>2 * B\<close> bytes or its length
  is not a multiple of \<open>B\<close>; inputs of 15 and of 16 bytes are rejected so. On an input of
  valid length \<^verbatim>\<open>Decrypt\<close> returns that error only when a query of the oracle itself
  returned this very error value, which is then handed on.
\<close>

theorem Decrypt_validation:
  "(Decrypt_run sch c q = (([], Some ErrInvalidCiphertext), [])) =
     (length c < 2 * CipherBlockLen \<or> length c mod CipherBlockLen \<noteq> 0) \<and>
   (snd (Decrypt sch c q) = Some ErrInvalidCiphertext \<longrightarrow>
      length c < 2 * CipherBlockLen \<or> length c mod CipherBlockLen \<noteq> 0 \<or>
      (\<exists>x\<in>set (snd (Decrypt_run sch c q)). snd (q (sent x)) = Some ErrInvalidCiphertext))"
proof (cases "length c < 2 * CipherBlockLen \<or> length c mod CipherBlockLen \<noteq> 0")
  case True
  then have "Decrypt_run sch c q = (([], Some ErrInvalidCiphertext), [])"
    by (auto simp: Decrypt_run_def Let_def CipherBlockLen_def)
  then show ?thesis using True by simp
next
  case False
  then have v: "32 \<le> length c" "length c mod 16 = 0" by (simp_all add: CipherBlockLen_def)
  have 1: "Decrypt_run sch c q \<noteq> (([], Some ErrInvalidCiphertext), [])"
    using Decrypt_run_trace_nonempty [OF v, of sch q] by auto
  have 2: "\<exists>x\<in>set (snd (Decrypt_run sch c q)). snd (q (sent x)) = Some ErrInvalidCiphertext"
    if "snd (Decrypt sch c q) = Some ErrInvalidCiphertext"
  proof -
    have "fst (Decrypt_loop sch c q (1 # [2..<length c div 16]) [] []) =
          (fst (Decrypt sch c q), Some ErrInvalidCiphertext)"
      using that unfolding Decrypt_def Decrypt_run_first_block [OF v]
      by (simp add: prod_eq_iff)
    from Decrypt_loop_error_source [OF this] show ?thesis
      unfolding Decrypt_run_first_block [OF v] by simp
  qed
  show ?thesis using False 1 2 by blast
qed

theorem Decrypt_validation_witness:
  "Decrypt_run (\<lambda>i p. sched0) (replicate 15 0) (\<lambda>c. (1, None)) =
     (([], Some ErrInvalidCiphertext), []) \<and>
   Decrypt_run (\<lambda>i p. sched0) (replicate 16 0) (\<lambda>c. (1, None)) =
     (([], Some ErrInvalidCiphertext), [])"
  using Decrypt_validation [of "\<lambda>i p. sched0" "replicate 15 0" "\<lambda>c. (1, None)"]
    Decrypt_validation [of "\<lambda>i p. sched0" "replicate 16 0" "\<lambda>c. (1, None)"]
  by (simp add: CipherBlockLen_def)

text \<open>
  The claim as stated fails in the direction from the error to the length: an input of two
  whole blocks passes the validation, and an oracle that answers its first query with
  \<open>ErrInvalidCiphertext\<close> makes \<^verbatim>\<open>Decrypt\<close> return that same error, after a query was made.
\<close>

theorem Decrypt_validation_counterexample:
  "2 * CipherBlockLen \<le> length (test_iv @ test_iv) \<and>
   length (test_iv @ test_iv) mod CipherBlockLen = 0 \<and>
   Decrypt (\<lambda>i p. sched0) (test_iv @ test_iv) (\<lambda>c. (0, Some ErrInvalidCiphertext)) =
     ([], Some ErrInvalidCiphertext) \<and>
   snd (Decrypt_run (\<lambda>i p. sched0) (test_iv @ test_iv) (\<lambda>c. (0, Some ErrInvalidCiphertext))) \<noteq> []"
proof -
  have l: "32 \<le> length (test_iv @ test_iv)" "length (test_iv @ test_iv) mod 16 = 0"
    by (simp_all add: test_iv_def)
  have d: "Decrypt (\<lambda>i p. sched0) (test_iv @ test_iv) (\<lambda>c. (0, Some ErrInvalidCiphertext)) =
      ([], Some ErrInvalidCiphertext)"
    by (rule Decrypt_oracle_down [OF _ l]) simp
  have t: "snd (Decrypt_run (\<lambda>i p. sched0) (test_iv @ test_iv)
      (\<lambda>c. (0, Some ErrInvalidCiphertext))) \<noteq> []"
    by (rule Decrypt_run_trace_nonempty [OF l])
  show ?thesis using l d t by (simp add: CipherBlockLen_def)
qed

text \<open>
  Claim C7. In every block recovery, no query made at the right-most position \<open>B - 1\<close>
  is built for the guess \<open>C0[B - 1]\<close> (and the byte \<open>B - 1\<close> of the block sent is the guess,
  so it is never \<open>C0[B - 1]\<close>): the guess space there is all bytes but that one. At every
  position left of it, the guess space is all 256 bytes.
\<close>

theorem rightmost_exclusion:
  "(\<forall>x\<in>set (snd (decryptBlock_run sch prev cur q)).
      pos x = CipherBlockLen - 1 \<longrightarrow>
      guess x \<noteq> prev ! (CipherBlockLen - 1) \<and> sent x ! (CipherBlockLen - 1) = guess x) \<and>
   set (values_chan prev (CipherBlockLen - 1)) = UNIV - {prev ! (CipherBlockLen - 1)} \<and>
   (\<forall>p<CipherBlockLen - 1.
      set (values_chan prev p) = UNIV \<and> distinct (values_chan prev p) \<and>
      length (values_chan prev p) = 256)"
proof (intro conjI ballI impI allI)
  fix x
  assume x: "x \<in> set (snd (decryptBlock_run sch prev cur q))" and p: "pos x = CipherBlockLen - 1"
  then have "x \<in> set (snd (decryptBlock_loop sch prev cur q CipherBlockLen
                 (replicate CipherBlockLen 0) []))"
    by (auto simp: decryptBlock_run_def split: if_splits)
  from decryptBlock_loop_trace_mem [OF this]
  obtain mi' where g: "guess x \<in> set (values_chan prev 15)"
    and s: "sent x = buildPad 15 (guess x) prev mi' @ cur"
    using p by (auto simp: CipherBlockLen_def)
  show "guess x \<noteq> prev ! (CipherBlockLen - 1)"
    using g by (simp add: set_values_chan CipherBlockLen_def)
  show "sent x ! (CipherBlockLen - 1) = guess x"
    using sent_at_pos [OF s] by (simp add: CipherBlockLen_def)
next
  show "set (values_chan prev (CipherBlockLen - 1)) = UNIV - {prev ! (CipherBlockLen - 1)}"
    by (simp add: set_values_chan CipherBlockLen_def)
next
  fix p assume "p < CipherBlockLen - 1"
  then have p: "p \<noteq> 15" by (simp add: CipherBlockLen_def)
  show "set (values_chan prev p) = UNIV" using p by (simp add: set_values_chan)
  show "distinct (values_chan prev p)" by (rule distinct_values_chan)
  show "length (values_chan prev p) = 256" using p by (rule length_values_chan)
qed

theorem rightmost_exclusion_witness:
  "\<lparr>pos = 15, guess = 0, sent = oracle_query 15 test_iv test_iv (replicate 16 0) 0\<rparr>
     \<in> set (snd (decryptBlock_run (\<lambda>p. sched0) test_iv test_iv (\<lambda>c. (1, None)))) \<and>
   (0 :: byte) \<noteq> test_iv ! 15 \<and>
   oracle_query 15 test_iv test_iv (replicate 16 0) 0 ! 15 = 0"
proof -
  let ?x = "\<lparr>pos = 15, guess = 0 :: byte, sent = oracle_query 15 test_iv test_iv (replicate 16 0) 0\<rparr>"
  have l: "length test_iv = 16" by (simp add: test_iv_def)
  have m: "?x \<in> set (snd (decryptBlock_run (\<lambda>p. sched0) test_iv test_iv (\<lambda>c. (1, None))))"
    using first_query_in_run [OF l, of test_iv "\<lambda>p. sched0" "\<lambda>c. (1, None)"]
    unfolding hd_values_chan_test_iv .
  have "pos ?x = CipherBlockLen - 1" by (simp add: CipherBlockLen_def)
  with rightmost_exclusion [of "\<lambda>p. sched0" test_iv test_iv "\<lambda>c. (1, None)"] m
  have "guess ?x \<noteq> test_iv ! (CipherBlockLen - 1) \<and> sent ?x ! (CipherBlockLen - 1) = guess ?x"
    by blast
  then show ?thesis using m by (simp add: CipherBlockLen_def)
qed


text \<open>
  Claim C8. At every position: if the oracle accepts no guess of the guess space (and
  returns no error), the engine fails with the error "no byte found"; if a query made by
  a worker returns an error, the engine returns an error that a query returned, unchanged,
  and asks nothing more. An error of the engine ends \<^verbatim>\<open>Decrypt\<close> and \<^verbatim>\<open>Encrypt\<close> at once
  with that error.
\<close>

theorem engine_failure:
  "((\<forall>g\<in>set (values_chan prev p).
        \<exists>res. q (oracle_query p prev cur mi g) = (res, None) \<and> res \<le> 0) \<longrightarrow>
      decryptBlock_loop sch prev cur q (Suc p) mi tr =
        (([], Some ErrNoByteFound), tr @ queries_at (sch p) q p prev cur mi)) \<and>
   ((\<exists>g\<in>set (guesses_read (sch p) q p prev cur mi).
        snd (q (oracle_query p prev cur mi g)) \<noteq> None) \<longrightarrow>
      (\<exists>g\<in>set (guesses_read (sch p) q p prev cur mi). \<exists>e.
          snd (q (oracle_query p prev cur mi g)) = Some e \<and>
          decryptBlock_loop sch prev cur q (Suc p) mi tr =
            (([], Some e), tr @ queries_at (sch p) q p prev cur mi))) \<and>
   (fst (decryptBlock_run (dsch i) (take CipherBlockLen (drop ((i - 1) * CipherBlockLen) c))
          (take CipherBlockLen (drop (CipherBlockLen * i) c)) q) = (bi, Some e') \<longrightarrow>
      Decrypt_loop dsch c q (i # rest) m dtr =
        (([], Some e'), dtr @ snd (decryptBlock_run (dsch i)
           (take CipherBlockLen (drop ((i - 1) * CipherBlockLen) c))
           (take CipherBlockLen (drop (CipherBlockLen * i) c)) q))) \<and>
   (decryptBlock (dsch i) z cnext q = (di, Some e') \<longrightarrow>
      Encrypt_loop dsch ctext q (i # rest) z cnext ct = ([], Some e'))"
proof (intro conjI impI)
  assume "\<forall>g\<in>set (values_chan prev p).
        \<exists>res. q (oracle_query p prev cur mi g) = (res, None) \<and> res \<le> 0"
  then show "decryptBlock_loop sch prev cur q (Suc p) mi tr =
        (([], Some ErrNoByteFound), tr @ queries_at (sch p) q p prev cur mi)"
    by (rule decryptBlock_loop_all_rejected)
next
  assume "\<exists>g\<in>set (guesses_read (sch p) q p prev cur mi).
        snd (q (oracle_query p prev cur mi g)) \<noteq> None"
  then show "\<exists>g\<in>set (guesses_read (sch p) q p prev cur mi). \<exists>e.
          snd (q (oracle_query p prev cur mi g)) = Some e \<and>
          decryptBlock_loop sch prev cur q (Suc p) mi tr =
            (([], Some e), tr @ queries_at (sch p) q p prev cur mi)"
    by (rule decryptBlock_loop_query_error)
next
  assume "fst (decryptBlock_run (dsch i) (take CipherBlockLen (drop ((i - 1) * CipherBlockLen) c))
          (take CipherBlockLen (drop (CipherBlockLen * i) c)) q) = (bi, Some e')"
  then show "Decrypt_loop dsch c q (i # rest) m dtr =
        (([], Some e'), dtr @ snd (decryptBlock_run (dsch i)
           (take CipherBlockLen (drop ((i - 1) * CipherBlockLen) c))
           (take CipherBlockLen (drop (CipherBlockLen * i) c)) q))"
    by (rule Decrypt_block_abort)
next
  assume "decryptBlock (dsch i) z cnext q = (di, Some e')"
  then show "Encrypt_loop dsch ctext q (i # rest) z cnext ct = ([], Some e')"
    by (rule Encrypt_block_error)
qed

theorem engine_failure_witness:
  "decryptBlock_loop (\<lambda>p. sched0) test_iv test_iv (\<lambda>c. (0, None)) (Suc 15) (replicate 16 0) [] =
     (([], Some ErrNoByteFound), queries_at sched0 (\<lambda>c. (0, None)) 15 test_iv test_iv (replicate 16 0)) \<and>
   fst (decryptBlock_loop (\<lambda>p. sched0) test_iv test_iv (\<lambda>c. (0, Some (ErrOther ''timeout'')))
          (Suc 15) (replicate 16 0) []) = ([], Some (ErrOther ''timeout'')) \<and>
   fst (Decrypt_loop (\<lambda>i p. sched0) (test_iv @ test_iv) (\<lambda>c. (0, Some (ErrOther ''timeout'')))
          [1] [] []) = ([], Some (ErrOther ''timeout'')) \<and>
   Encrypt_loop (\<lambda>i p. sched0) (PCKCS5Pad hello_world) (\<lambda>c. (0, Some (ErrOther ''timeout'')))
     [0] (replicate 16 0) (replicate 16 0) (replicate 16 0) = ([], Some (ErrOther ''timeout''))"
proof -
  let ?no = "\<lambda>c :: bytes. (0 :: int, None :: error option)"
  let ?down = "\<lambda>c :: bytes. (0 :: int, Some (ErrOther ''timeout''))"
  let ?z = "replicate 16 (0 :: byte)"
  note ef = engine_failure [where sch = "\<lambda>p. sched0" and prev = test_iv and cur = test_iv
      and p = 15 and mi = ?z and tr = "[]" and dsch = "\<lambda>i p. sched0" and rest = "[]"
      and e' = "ErrOther ''timeout''" and bi = "[]" and di = "[]" and m = "[]" and dtr = "[]"
      and ct = ?z]
  have 1: "decryptBlock_loop (\<lambda>p. sched0) test_iv test_iv ?no (Suc 15) ?z [] =
     (([], Some ErrNoByteFound), queries_at sched0 ?no 15 test_iv test_iv ?z)"
    using ef [where q = ?no, THEN conjunct1] by simp
  have "\<exists>g\<in>set (guesses_read sched0 ?down 15 test_iv test_iv ?z).
          snd (?down (oracle_query 15 test_iv test_iv ?z g)) \<noteq> None"
    using hd_values_read [of test_iv 15 sched0 ?down test_iv ?z] by auto
  then have 2: "fst (decryptBlock_loop (\<lambda>p. sched0) test_iv test_iv ?down (Suc 15) ?z []) =
      ([], Some (ErrOther ''timeout''))"
    using ef [where q = ?down, THEN conjunct2, THEN conjunct1] by auto
  have l: "length test_iv = 16" by (simp add: test_iv_def)
  have "fst (decryptBlock_run sched0' test_iv test_iv ?down) = ([], Some (ErrOther ''timeout''))"
    for sched0'
    using decryptBlock_oracle_down [where q = ?down and e = "ErrOther ''timeout''", OF _ l]
    by (simp add: decryptBlock_def)
  then have 3: "fst (Decrypt_loop (\<lambda>i p. sched0) (test_iv @ test_iv) ?down [1] [] []) =
      ([], Some (ErrOther ''timeout''))"
    using ef [where q = ?down and c = "test_iv @ test_iv" and i = 1,
        THEN conjunct2, THEN conjunct2, THEN conjunct1]
    by (simp add: CipherBlockLen_def l)
  have "decryptBlock sched0' ?z ?z ?down = ([], Some (ErrOther ''timeout''))" for sched0'
    using decryptBlock_oracle_down [where q = ?down and e = "ErrOther ''timeout''"] by simp
  then have 4: "Encrypt_loop (\<lambda>i p. sched0) (PCKCS5Pad hello_world) ?down [0] ?z ?z ?z =
      ([], Some (ErrOther ''timeout''))"
    using ef [where q = ?down and z = ?z and cnext = ?z and i = 0 and ctext = "PCKCS5Pad hello_world",
        THEN conjunct2, THEN conjunct2, THEN conjunct2]
    by simp
  show ?thesis using 1 2 3 4 by blast
qed

text \<open>
  Claim C9, as the code has it. For every ciphertext and every deterministic oracle such
  that, in the recovery of every block, at most one guess of the guess space at each
  position reached ends a worker (the oracle reports a valid padding or an error for it),
  two runs of \<^verbatim>\<open>Decrypt\<close> return the same result, whatever the schedules of the workers.
\<close>

theorem Decrypt_deterministic:
  assumes "race_free_blocks q c"
  shows "Decrypt sch c q = Decrypt sch' c q"
  using assms by (rule Decrypt_race_free)


theorem Decrypt_deterministic_witness:
  "race_free_blocks (testOracle_Do (xor_cipher test_key)) (test_iv @ hello_block) \<and>
   Decrypt (\<lambda>i p. sched0) (test_iv @ hello_block) (testOracle_Do (xor_cipher test_key)) =
   Decrypt (\<lambda>i. sched_race15) (test_iv @ hello_block) (testOracle_Do (xor_cipher test_key))"
  using hello_race_free
    Decrypt_deterministic [OF hello_race_free, of "\<lambda>i p. sched0" "\<lambda>i. sched_race15"]
  by blast

text \<open>
  The claim as stated fails: on the ciphertext of \<^verbatim>\<open>"Hello world!!!\\x02l"\<close>, with the
  oracle that wraps the true decryptor, the run in which no guess is read after the first
  success returns the padded plaintext, and the run in which the guesses 1 and 2 both reach
  the sink at position 15 of the first block returns the error "no byte found".
\<close>

theorem Decrypt_idempotence_counterexample:
  "Decrypt (\<lambda>i p. sched0) racy_ciphertext (testOracle_Do (xor_cipher test_key)) =
     (PCKCS5Pad racy_msg, None) \<and>
   Decrypt (\<lambda>i. sched_race15) racy_ciphertext (testOracle_Do (xor_cipher test_key)) =
     ([], Some ErrNoByteFound)"
  using racy_Decrypt_sched0 racy_Decrypt_race by blast

text \<open>
  Claim C10. When \<^verbatim>\<open>Decrypt\<close> returns an error, the plaintext it returns is the empty
  string, and when \<^verbatim>\<open>Encrypt\<close> returns an error, the ciphertext it returns is \<^verbatim>\<open>nil\<close>:
  the blocks recovered before the failing one are not returned.
\<close>

theorem error_atomicity:
  "(snd (Decrypt sch c q) \<noteq> None \<longrightarrow> fst (Decrypt sch c q) = []) \<and>
   (snd (Encrypt sch' txt q') \<noteq> None \<longrightarrow> fst (Encrypt sch' txt q') = [])"
  using Decrypt_error_empty Encrypt_error_empty by blast

theorem error_atomicity_witness:
  "snd (Decrypt (\<lambda>i p. sched0) (test_iv @ test_iv) (\<lambda>c. (0, Some (ErrOther ''timeout'')))) \<noteq> None \<and>
   fst (Decrypt (\<lambda>i p. sched0) (test_iv @ test_iv) (\<lambda>c. (0, Some (ErrOther ''timeout'')))) = [] \<and>
   snd (Encrypt (\<lambda>i p. sched0) hello_world (\<lambda>c. (0, Some (ErrOther ''timeout'')))) \<noteq> None \<and>
   fst (Encrypt (\<lambda>i p. sched0) hello_world (\<lambda>c. (0, Some (ErrOther ''timeout'')))) = []"
proof -
  let ?q = "\<lambda>c :: bytes. (0 :: int, Some (ErrOther ''timeout''))"
  have d: "snd (Decrypt (\<lambda>i p. sched0) (test_iv @ test_iv) ?q) \<noteq> None"
    by (subst Decrypt_oracle_down [where e = "ErrOther ''timeout''"]) (simp_all add: test_iv_def)
  have e: "snd (Encrypt (\<lambda>i p. sched0) hello_world ?q) \<noteq> None"
    by (subst Encrypt_oracle_down [where e = "ErrOther ''timeout''"]) simp_all
  show ?thesis
    using d e error_atomicity [of "\<lambda>i p. sched0" "test_iv @ test_iv" ?q "\<lambda>i p. sched0" hello_world ?q]
    by blast
qed

end
